theory Spec2Isabelle
  imports Main
begin

text \<open>
  The concurrent download layer of the VSCO downloader: the semaphore, the pool of browser
  contexts, the single attempt and its retries, the task of one item, the batch and the
  loop over the batches (\<^verbatim>\<open>src/download/ConcurrentDownloadService.ts\<close>,
  \<^verbatim>\<open>src/browser/BrowserPool.ts\<close>), with the single attempt of the sequential service
  (\<^verbatim>\<open>DownloadService.attemptDownload\<close>) beside it. The first part translates the code,
  the second part proves the properties C1 to C10 of it.

  The code is asynchronous. A function of the source becomes a function that returns what
  the source function returns or throws, together with the calls it makes to the outside
  in their order; what the outside answers, and the order in which concurrent tasks
  settle, are arguments, so a theorem about every argument is a theorem about every run.
\<close>

section \<open>Thrown values\<close>

text \<open>
  A JavaScript \<^verbatim>\<open>throw\<close> carries any value. The code only ever looks at whether the
  value is an \<^verbatim>\<open>Error\<close> and at its \<^verbatim>\<open>message\<close>, so a thrown value is either an
  \<^verbatim>\<open>Error\<close> with its message or some other value (which has no message).
  A function that may throw returns \<open>thrown + 'a\<close>, with \<open>Inl\<close> for the throw.
\<close>

datatype thrown = Error (message: string) | NonError

text \<open>\<^verbatim>\<open>error instanceof Error ? error.message : "Unknown error"\<close>\<close>

definition errorMessage :: "thrown \<Rightarrow> string" where
  "errorMessage e = (case e of Error m \<Rightarrow> m | NonError \<Rightarrow> ''Unknown error'')"

section \<open>Semaphore (ConcurrentDownloadService.ts, class Semaphore)\<close>

text \<open>
  The three fields of the class are \<open>maxConcurrent\<close>, \<open>currentCount\<close> and \<open>queue\<close>.
  A queued closure \<^verbatim>\<open>execute\<close> is identified by the number of the \<^verbatim>\<open>acquire\<close> call
  that made it. The other fields are bookkeeping of the model and are never read by
  the operations: \<open>holders\<close> lists the \<^verbatim>\<open>execute\<close> bodies that have run
  \<^verbatim>\<open>this.currentCount++\<close> and not yet their \<^verbatim>\<open>finally\<close> block, \<open>started\<close> logs every
  call of \<^verbatim>\<open>fn()\<close> in order (with \<open>True\<close> when the closure came out of the queue),
  \<open>waited\<close> logs the acquire calls that were queued, and \<open>outcomes\<close> logs how the
  promise returned by \<^verbatim>\<open>acquire\<close> was settled (\<open>True\<close> for resolve, \<open>False\<close> for reject).
\<close>

record Semaphore =
  maxConcurrent :: int
  currentCount :: int
  queue :: "nat list"
  holders :: "nat list"
  started :: "(nat \<times> bool) list"
  waited :: "nat list"
  outcomes :: "(nat \<times> bool) list"

definition new_Semaphore :: "int \<Rightarrow> Semaphore" where
  "new_Semaphore k =
     \<lparr>maxConcurrent = k, currentCount = 0, queue = [], holders = [], started = [],
      waited = [], outcomes = []\<rparr>"

text \<open>
  The synchronous head of \<^verbatim>\<open>execute\<close>: \<^verbatim>\<open>this.currentCount++\<close>, then \<^verbatim>\<open>fn()\<close> is called.
\<close>

definition execute_enter :: "nat \<Rightarrow> bool \<Rightarrow> Semaphore \<Rightarrow> Semaphore" where
  "execute_enter t fromQueue s =
     s\<lparr>currentCount := currentCount s + 1,
       holders := holders s @ [t],
       started := started s @ [(t, fromQueue)]\<rparr>"

text \<open>
  \<^verbatim>\<open>if (this.currentCount < this.maxConcurrent) execute(); else this.queue.push(execute);\<close>
\<close>

definition acquire :: "nat \<Rightarrow> Semaphore \<Rightarrow> Semaphore" where
  "acquire t s =
     (if currentCount s < maxConcurrent s then execute_enter t False s
      else s\<lparr>queue := queue s @ [t], waited := waited s @ [t]\<rparr>)"

text \<open>
  The tail of \<^verbatim>\<open>execute\<close>, entered when the promise of \<^verbatim>\<open>fn()\<close> settles: the outer
  promise is resolved or rejected, and then the \<^verbatim>\<open>finally\<close> block runs
  \<^verbatim>\<open>this.currentCount--\<close>, and, when the queue is not empty, \<^verbatim>\<open>this.queue.shift()\<close> and
  \<^verbatim>\<open>next()\<close>. The result lists every state the object passes through.
\<close>

definition execute_finally :: "nat \<Rightarrow> bool \<Rightarrow> Semaphore \<Rightarrow> Semaphore list" where
  "execute_finally t ok s =
     (let s0 = s\<lparr>outcomes := outcomes s @ [(t, ok)]\<rparr>;
          s1 = s0\<lparr>currentCount := currentCount s0 - 1, holders := remove1 t (holders s0)\<rparr>
      in if length (queue s1) > 0
         then (case queue s1 of
                 [] \<Rightarrow> [s0, s1]
               | n # rest \<Rightarrow>
                   (let s2 = s1\<lparr>queue := rest\<rparr> in [s0, s1, s2, execute_enter n True s2]))
         else [s0, s1])"

text \<open>
  What can happen to a semaphore: \<^verbatim>\<open>acquire\<close> is called, or the task of a slot holder
  settles (fulfilled when the flag is \<open>True\<close>, rejected otherwise). A task that holds
  no slot has not been called or has settled already, so it cannot settle.
\<close>

datatype sem_event = Acquire nat | Settle nat bool

fun sem_step :: "sem_event \<Rightarrow> Semaphore \<Rightarrow> Semaphore list" where
  "sem_step (Acquire t) s = [acquire t s]"
| "sem_step (Settle t ok) s = (if t \<in> set (holders s) then execute_finally t ok s else [s])"

text \<open>Every state visited while a sequence of events is handled, the first included.\<close>

fun sem_trace :: "sem_event list \<Rightarrow> Semaphore \<Rightarrow> Semaphore list" where
  "sem_trace [] s = [s]"
| "sem_trace (e # es) s = s # butlast (sem_step e s) @ sem_trace es (last (sem_step e s))"

text \<open>The state once every event of the sequence has been handled.\<close>

fun sem_final :: "sem_event list \<Rightarrow> Semaphore \<Rightarrow> Semaphore" where
  "sem_final [] s = s"
| "sem_final (e # es) s = sem_final es (last (sem_step e s))"

definition sem_inv :: "int \<Rightarrow> Semaphore \<Rightarrow> bool" where
  "sem_inv k s \<longleftrightarrow>
     maxConcurrent s = k \<and> 0 \<le> currentCount s \<and> currentCount s \<le> k \<and>
     currentCount s = int (length (holders s))"

definition fifo_inv :: "Semaphore \<Rightarrow> bool" where
  "fifo_inv s \<longleftrightarrow> map fst (filter snd (started s)) @ queue s = waited s"

section \<open>Configuration (Config.get)\<close>

text \<open>
  The options the download layer reads. An option that was not given is \<open>None\<close>
  (\<^verbatim>\<open>undefined\<close> in the source). Only \<^verbatim>\<open>dryRun\<close> always has a value (the constructor
  of \<^verbatim>\<open>Config\<close> rejects anything but a boolean). The field \<open>cfg_x\<close> is
  \<^verbatim>\<open>this.config.get("x")\<close>.
\<close>

record Config =
  cfg_maxConcurrency :: "int option"
  cfg_enableBatching :: "bool option"
  cfg_batchSize :: "int option"
  cfg_delayBetweenBatches :: "int option"
  cfg_retries :: "int option"
  cfg_dryRun :: bool

text \<open>
  The options after \<^verbatim>\<open>validateAndSetDefaults\<close> when the caller gave none:
  \<^verbatim>\<open>retries: 3\<close>, \<^verbatim>\<open>dryRun: false\<close>, nothing for the others.
\<close>

definition defaults :: Config where
  "defaults =
     \<lparr>cfg_maxConcurrency = None, cfg_enableBatching = None, cfg_batchSize = None,
      cfg_delayBetweenBatches = None, cfg_retries = Some 3, cfg_dryRun = False\<rparr>"

text \<open>\<^verbatim>\<open>this.config.get(key) || d\<close> on a number: \<^verbatim>\<open>undefined\<close> and \<^verbatim>\<open>0\<close> are falsy.\<close>

definition or_default :: "int option \<Rightarrow> int \<Rightarrow> int" where
  "or_default v d = (case v of None \<Rightarrow> d | Some n \<Rightarrow> if n = 0 then d else n)"

text \<open>\<^verbatim>\<open>s || d\<close> on an optional string: \<^verbatim>\<open>undefined\<close> and the empty string are falsy.\<close>

definition or_string :: "string option \<Rightarrow> string \<Rightarrow> string" where
  "or_string v d = (case v of None \<Rightarrow> d | Some s \<Rightarrow> if s = [] then d else s)"

text \<open>
  The options as the command line builds them (\<^verbatim>\<open>OptionParser.buildDownloaderOptions\<close>),
  from the parsed numbers (\<open>None\<close> for an option that was not given or did not parse):
  \<^verbatim>\<open>Math.max(1, Math.min(10, concurrency))\<close>, \<^verbatim>\<open>Math.max(1, batchSize)\<close>,
  \<^verbatim>\<open>Math.max(0, delayBetweenBatches)\<close>, and \<^verbatim>\<open>enableBatching = false\<close> for
  \<^verbatim>\<open>--no-batching\<close>.
\<close>

definition buildDownloaderOptions ::
  "int option \<Rightarrow> int option \<Rightarrow> int option \<Rightarrow> bool \<Rightarrow> int \<Rightarrow> bool \<Rightarrow> Config" where
  "buildDownloaderOptions concurrency batch delay noBatching tries dry =
     \<lparr>cfg_maxConcurrency = map_option (\<lambda>c. max 1 (min 10 c)) concurrency,
      cfg_enableBatching = (if noBatching then Some False else None),
      cfg_batchSize = map_option (max 1) batch,
      cfg_delayBetweenBatches = map_option (max 0) delay,
      cfg_retries = Some tries,
      cfg_dryRun = dry\<rparr>"

section \<open>BrowserPool (BrowserPool.ts)\<close>

text \<open>
  A \<^verbatim>\<open>BrowserContext\<close> object is identified by a number. \<open>browser\<close> is \<open>True\<close> when
  \<^verbatim>\<open>this.browser\<close> is not \<^verbatim>\<open>null\<close>. Two fields belong to the model only: \<open>nextContext\<close>
  numbers the context objects that \<^verbatim>\<open>browser.newContext\<close> makes, and \<open>newContextScript\<close>
  says how the coming calls of \<^verbatim>\<open>browser.newContext\<close> end (\<open>None\<close>: a context is
  returned, \<open>Some e\<close>: \<open>e\<close> is thrown; past the end of the script every call returns a
  context). Failures of \<^verbatim>\<open>context.close()\<close> and \<^verbatim>\<open>page.close()\<close> are caught and logged
  in the source and change nothing, so they are not modelled.

  The methods of the pool are \<^verbatim>\<open>async\<close>. The functions of this section give what one
  call does from its start to its end when no other call of the pool runs in between:
  the whole call is one step, and it reads the clock once, as its argument \<open>now\<close>. This is
  how the task of one item is given the pool that its \<^verbatim>\<open>getContext\<close> leaves. Calls that
  overlap are followed \<^verbatim>\<open>await\<close> by \<^verbatim>\<open>await\<close> in the next section.
\<close>

record PooledContext =
  browserContext :: nat
  inUse :: bool
  createdAt :: int
  lastUsedAt :: int
  useCount :: int

record BrowserPool =
  browser :: bool
  contextPool :: "PooledContext list"
  maxPoolSize :: int
  contextLifetime :: int
  maxContextUses :: int
  nextContext :: nat
  newContextScript :: "thrown option list"

definition new_BrowserPool :: "Config \<Rightarrow> thrown option list \<Rightarrow> BrowserPool" where
  "new_BrowserPool config script =
     \<lparr>browser = False, contextPool = [], maxPoolSize = or_default (cfg_maxConcurrency config) 3,
      contextLifetime = 300000, maxContextUses = 100, nextContext = 0,
      newContextScript = script\<rparr>"

definition createContext :: "int \<Rightarrow> BrowserPool \<Rightarrow> BrowserPool \<times> (thrown + PooledContext)" where
  "createContext now p =
     (if \<not> browser p then (p, Inl (Error ''Browser not initialized''))
      else (case newContextScript p of
              Some e # script \<Rightarrow> (p\<lparr>newContextScript := script\<rparr>, Inl e)
            | _ \<Rightarrow>
               (let pooledContext =
                      \<lparr>browserContext = nextContext p, inUse = False, createdAt = now,
                       lastUsedAt = now, useCount = 0\<rparr>
                in (p\<lparr>contextPool := contextPool p @ [pooledContext],
                      nextContext := nextContext p + 1,
                      newContextScript := tl (newContextScript p)\<rparr>,
                    Inr pooledContext))))"

text \<open>\<^verbatim>\<open>this.contextPool.splice(index, 1)\<close> at the index of the entry of context \<open>c\<close>.\<close>

fun splice_context :: "nat \<Rightarrow> PooledContext list \<Rightarrow> PooledContext list" where
  "splice_context c [] = []"
| "splice_context c (pc # pcs) = (if browserContext pc = c then pcs else pc # splice_context c pcs)"

definition replaceContext :: "int \<Rightarrow> nat \<Rightarrow> BrowserPool \<Rightarrow> BrowserPool" where
  "replaceContext now c p =
     (if c \<notin> browserContext ` set (contextPool p) then p
      else (let p1 = p\<lparr>contextPool := splice_context c (contextPool p)\<rparr>
            in if int (length (contextPool p1)) < maxPoolSize p1
               then fst (createContext now p1)
               else p1))"

definition cleanupStaleContexts :: "int \<Rightarrow> BrowserPool \<Rightarrow> BrowserPool" where
  "cleanupStaleContexts now p =
     (let staleContexts =
            filter (\<lambda>pc. \<not> inUse pc \<and>
                          (now - createdAt pc > contextLifetime p \<or> useCount pc \<ge> maxContextUses p))
              (contextPool p)
      in fold (\<lambda>pc. replaceContext now (browserContext pc)) staleContexts p)"

text \<open>
  \<^verbatim>\<open>pooledContext.inUse = true; pooledContext.lastUsedAt = Date.now(); pooledContext.useCount++\<close>
  on the entry of the pool that is the object \<open>pc\<close>.
\<close>

definition markInUse :: "int \<Rightarrow> PooledContext \<Rightarrow> BrowserPool \<Rightarrow> BrowserPool" where
  "markInUse now pc p =
     p\<lparr>contextPool :=
         map (\<lambda>x. if browserContext x = browserContext pc
                   then x\<lparr>inUse := True, lastUsedAt := now, useCount := useCount x + 1\<rparr>
                   else x)
           (contextPool p)\<rparr>"

definition getContext :: "int \<Rightarrow> BrowserPool \<Rightarrow> BrowserPool \<times> (thrown + nat)" where
  "getContext now p =
     (if \<not> browser p
      then (p, Inl (Error ''Browser pool not initialized. Call initialize() first.''))
      else (let p1 = cleanupStaleContexts now p in
            case find (\<lambda>pc. \<not> inUse pc) (contextPool p1) of
              Some pc \<Rightarrow> (markInUse now pc p1, Inr (browserContext pc))
            | None \<Rightarrow>
                if int (length (contextPool p1)) < maxPoolSize p1
                then (case createContext now p1 of
                        (p2, Inl e) \<Rightarrow> (p2, Inl e)
                      | (p2, Inr pc) \<Rightarrow> (markInUse now pc p2, Inr (browserContext pc)))
                else (case sort_key lastUsedAt (filter (\<lambda>pc. \<not> inUse pc) (contextPool p1)) of
                        [] \<Rightarrow> (p1, Inl (Error ''No browser contexts available and pool is at capacity''))
                      | pc # _ \<Rightarrow> (markInUse now pc p1, Inr (browserContext pc)))))"

definition releaseContext :: "int \<Rightarrow> nat \<Rightarrow> BrowserPool \<Rightarrow> BrowserPool" where
  "releaseContext now c p =
     (case find (\<lambda>pc. browserContext pc = c) (contextPool p) of
        None \<Rightarrow> p
      | Some pooledContext \<Rightarrow>
          (let p1 = p\<lparr>contextPool :=
                        map (\<lambda>x. if browserContext x = c then x\<lparr>inUse := False\<rparr> else x)
                          (contextPool p)\<rparr>
           in if useCount pooledContext \<ge> maxContextUses p1 then replaceContext now c p1 else p1))"

text \<open>
  \<^verbatim>\<open>initialize\<close>: \<open>launch\<close> is how \<^verbatim>\<open>chromium.launch\<close> ends. The result says whether the
  call threw.
\<close>

definition initialize :: "thrown option \<Rightarrow> int \<Rightarrow> BrowserPool \<Rightarrow> BrowserPool \<times> thrown option" where
  "initialize launch now p =
     (case launch of
        Some e \<Rightarrow> (p, Some e)
      | None \<Rightarrow>
          (case createContext now (p\<lparr>browser := True\<rparr>) of
             (p1, Inl e) \<Rightarrow> (p1, Some e)
           | (p1, Inr _) \<Rightarrow> (p1, None)))"

definition getPoolSize :: "BrowserPool \<Rightarrow> nat" where
  "getPoolSize p = length (contextPool p)"

section \<open>BrowserPool: calls that overlap\<close>

text \<open>
  A call of an \<^verbatim>\<open>async\<close> method runs until its next \<^verbatim>\<open>await\<close>, is suspended there and
  goes on later; in between, other calls of the pool run. Every \<^verbatim>\<open>await\<close> of
  \<^verbatim>\<open>initialize\<close>, \<^verbatim>\<open>getContext\<close>, \<^verbatim>\<open>cleanupStaleContexts\<close>, \<^verbatim>\<open>replaceContext\<close> and
  \<^verbatim>\<open>createContext\<close> is a place where a call is suspended:
  \<^item> \<open>At_launch\<close>: \<^verbatim>\<open>initialize\<close> at \<^verbatim>\<open>await chromium.launch()\<close>;
  \<^item> \<open>At_newContext k\<close>: \<^verbatim>\<open>createContext\<close> at \<^verbatim>\<open>await this.browser.newContext()\<close>;
  \<^item> \<open>At_created r k\<close>: \<^verbatim>\<open>createContext\<close> has returned or thrown \<open>r\<close>, and its caller is
    at its \<^verbatim>\<open>await this.createContext()\<close>;
  \<^item> \<open>At_close index rest\<close>: \<^verbatim>\<open>replaceContext\<close> at \<^verbatim>\<open>await pooledContext.context.close()\<close>,
    with the \<^verbatim>\<open>index\<close> it took before;
  \<^item> \<open>At_replaced rest\<close>: \<^verbatim>\<open>replaceContext\<close> has returned, and \<^verbatim>\<open>cleanupStaleContexts\<close> is
    at its \<^verbatim>\<open>await this.replaceContext(staleContext)\<close>;
  \<^item> \<open>At_cleaned\<close>: \<^verbatim>\<open>cleanupStaleContexts\<close> has returned, and \<^verbatim>\<open>getContext\<close> is at its
    \<^verbatim>\<open>await this.cleanupStaleContexts()\<close>.

  \<open>k\<close> says who called \<^verbatim>\<open>createContext\<close>, and \<open>rest\<close> holds the stale contexts that the
  loop of \<^verbatim>\<open>cleanupStaleContexts\<close> has still to replace (\<^verbatim>\<open>replaceContext\<close> is only called
  from that loop here: calls of \<^verbatim>\<open>releaseContext\<close> and \<^verbatim>\<open>cleanup\<close> are not followed). A call
  is suspended at one of these places or has settled, with what it threw or returned (a
  context for \<^verbatim>\<open>getContext\<close>, nothing for \<^verbatim>\<open>initialize\<close>).
\<close>

datatype after_create = To_initialize | To_getContext | To_replaceContext "nat list"

datatype suspended =
    At_launch
  | At_newContext after_create
  | At_created "thrown + PooledContext" after_create
  | At_close nat "nat list"
  | At_replaced "nat list"
  | At_cleaned

datatype progress = Suspended suspended | Settled "thrown + nat option"

text \<open>
  \<^verbatim>\<open>createContext\<close> from its start to its \<^verbatim>\<open>await\<close>, or to its \<^verbatim>\<open>throw\<close> when there is no
  browser.
\<close>

definition run_createContext :: "after_create \<Rightarrow> BrowserPool \<Rightarrow> BrowserPool \<times> progress" where
  "run_createContext k p =
     (if \<not> browser p then (p, Suspended (At_created (Inl (Error ''Browser not initialized'')) k))
      else (p, Suspended (At_newContext k)))"

text \<open>\<^verbatim>\<open>this.contextPool.indexOf(pooledContext)\<close>, \<open>None\<close> for \<open>-1\<close>.\<close>

fun indexOf :: "nat \<Rightarrow> PooledContext list \<Rightarrow> nat option" where
  "indexOf c [] = None"
| "indexOf c (pc # pcs) =
     (if browserContext pc = c then Some 0 else map_option Suc (indexOf c pcs))"

text \<open>\<^verbatim>\<open>replaceContext\<close> from its start to its \<^verbatim>\<open>await\<close>, or to its \<^verbatim>\<open>return\<close>.\<close>

definition run_replaceContext :: "nat \<Rightarrow> nat list \<Rightarrow> BrowserPool \<Rightarrow> BrowserPool \<times> progress" where
  "run_replaceContext c rest p =
     (case indexOf c (contextPool p) of
        None \<Rightarrow> (p, Suspended (At_replaced rest))
      | Some index \<Rightarrow> (p, Suspended (At_close index rest)))"

text \<open>
  The loop of \<^verbatim>\<open>cleanupStaleContexts\<close> from the stale contexts still to come to the next
  \<^verbatim>\<open>await\<close>.
\<close>

fun run_cleanupStaleContexts :: "nat list \<Rightarrow> BrowserPool \<Rightarrow> BrowserPool \<times> progress" where
  "run_cleanupStaleContexts [] p = (p, Suspended At_cleaned)"
| "run_cleanupStaleContexts (c # rest) p = run_replaceContext c rest p"

text \<open>
  A call from its start to its first \<^verbatim>\<open>await\<close>. \<^verbatim>\<open>getContext\<close> throws at once on a pool
  without browser; otherwise it enters \<^verbatim>\<open>cleanupStaleContexts\<close>, which lists the stale
  contexts of this moment.
\<close>

datatype pool_call = Call_initialize | Call_getContext

fun start_call :: "pool_call \<Rightarrow> int \<Rightarrow> BrowserPool \<Rightarrow> BrowserPool \<times> progress" where
  "start_call Call_initialize now p = (p, Suspended At_launch)"
| "start_call Call_getContext now p =
     (if \<not> browser p
      then (p, Settled (Inl (Error ''Browser pool not initialized. Call initialize() first.'')))
      else (let staleContexts =
                  filter (\<lambda>pc. \<not> inUse pc \<and>
                                (now - createdAt pc > contextLifetime p \<or> useCount pc \<ge> maxContextUses p))
                    (contextPool p)
            in run_cleanupStaleContexts (map browserContext staleContexts) p))"

text \<open>
  A suspended call goes on until its next \<^verbatim>\<open>await\<close> or its end. \<open>outcome\<close> is how the
  awaited call of the outside (\<^verbatim>\<open>chromium.launch\<close>, \<^verbatim>\<open>browser.newContext\<close>,
  \<^verbatim>\<open>context.close\<close>) ended: \<open>None\<close> when it returned, \<open>Some e\<close> when it threw \<open>e\<close>; it plays
  no part where the call waits for a method of the pool itself. \<open>now\<close> is the clock.
  A failure of \<^verbatim>\<open>context.close()\<close> is caught in \<^verbatim>\<open>replaceContext\<close>, and so is a failure of its
  \<^verbatim>\<open>createContext\<close>; \<^verbatim>\<open>splice(index, 1)\<close> removes the entry at \<open>index\<close>, whatever it is by
  then.
\<close>

fun resume :: "int \<Rightarrow> thrown option \<Rightarrow> suspended \<Rightarrow> BrowserPool \<Rightarrow> BrowserPool \<times> progress" where
  "resume now outcome At_launch p =
     (case outcome of
        Some e \<Rightarrow> (p, Settled (Inl e))
      | None \<Rightarrow> run_createContext To_initialize (p\<lparr>browser := True\<rparr>))"
| "resume now outcome (At_newContext k) p =
     (case outcome of
        Some e \<Rightarrow> (p, Suspended (At_created (Inl e) k))
      | None \<Rightarrow>
          (let pooledContext =
                 \<lparr>browserContext = nextContext p, inUse = False, createdAt = now,
                  lastUsedAt = now, useCount = 0\<rparr>
           in (p\<lparr>contextPool := contextPool p @ [pooledContext], nextContext := nextContext p + 1\<rparr>,
               Suspended (At_created (Inr pooledContext) k))))"
| "resume now outcome (At_created r To_initialize) p =
     (case r of Inl e \<Rightarrow> (p, Settled (Inl e)) | Inr _ \<Rightarrow> (p, Settled (Inr None)))"
| "resume now outcome (At_created r To_getContext) p =
     (case r of
        Inl e \<Rightarrow> (p, Settled (Inl e))
      | Inr pc \<Rightarrow> (markInUse now pc p, Settled (Inr (Some (browserContext pc)))))"
| "resume now outcome (At_created r (To_replaceContext rest)) p = (p, Suspended (At_replaced rest))"
| "resume now outcome (At_close index rest) p =
     (let p1 = p\<lparr>contextPool := take index (contextPool p) @ drop (Suc index) (contextPool p)\<rparr>
      in if int (length (contextPool p1)) < maxPoolSize p1
         then run_createContext (To_replaceContext rest) p1
         else (p1, Suspended (At_replaced rest)))"
| "resume now outcome (At_replaced rest) p = run_cleanupStaleContexts rest p"
| "resume now outcome At_cleaned p =
     (case find (\<lambda>pc. \<not> inUse pc) (contextPool p) of
        Some pc \<Rightarrow> (markInUse now pc p, Settled (Inr (Some (browserContext pc))))
      | None \<Rightarrow>
          if int (length (contextPool p)) < maxPoolSize p
          then run_createContext To_getContext p
          else (case sort_key lastUsedAt (filter (\<lambda>pc. \<not> inUse pc) (contextPool p)) of
                  [] \<Rightarrow> (p, Settled (Inl (Error ''No browser contexts available and pool is at capacity'')))
                | pc # _ \<Rightarrow> (markInUse now pc p, Settled (Inr (Some (browserContext pc))))))"

text \<open>
  A run of the pool: calls are made (each under a number of its own) and suspended calls
  go on, in any order. The state is the pool and, for each call, where it is.
\<close>

datatype pool_event = Call nat pool_call int | Resume nat int "thrown option"

record pool_run =
  pool :: BrowserPool
  calls :: "nat \<rightharpoonup> progress"

definition new_pool_run :: "Config \<Rightarrow> pool_run" where
  "new_pool_run config = \<lparr>pool = new_BrowserPool config [], calls = Map.empty\<rparr>"

fun run_event :: "pool_event \<Rightarrow> pool_run \<Rightarrow> pool_run" where
  "run_event (Call c f now) r =
     (case calls r c of
        Some _ \<Rightarrow> r
      | None \<Rightarrow> (case start_call f now (pool r) of (p, pr) \<Rightarrow> \<lparr>pool = p, calls = (calls r)(c \<mapsto> pr)\<rparr>))"
| "run_event (Resume c now outcome) r =
     (case calls r c of
        Some (Suspended s) \<Rightarrow>
          (case resume now outcome s (pool r) of (p, pr) \<Rightarrow> \<lparr>pool = p, calls = (calls r)(c \<mapsto> pr)\<rparr>)
      | _ \<Rightarrow> r)"

text \<open>
  A run on a new pool in which every call of the outside succeeds and no context gets
  stale.
  \<^item> Events 1 to 4: \<^verbatim>\<open>initialize\<close> (call 0) is made and runs to its end, through
    \<^verbatim>\<open>chromium.launch\<close>, \<^verbatim>\<open>browser.newContext\<close> and the return of \<^verbatim>\<open>createContext\<close>.
  \<^item> Events 5 to 7: three calls of \<^verbatim>\<open>getContext\<close> (calls 1, 2 and 3) are made one after
    the other, as by
    \<^verbatim>\<open>Promise.all([pool.getContext(), pool.getContext(), pool.getContext()])\<close>; each is
    suspended at \<^verbatim>\<open>await this.cleanupStaleContexts()\<close>.
  \<^item> Events 8 to 10: the three calls go on in the order in which they were made, each to
    its end or to its next \<^verbatim>\<open>await\<close>.
  \<^item> Events 11 to 14: \<^verbatim>\<open>browser.newContext\<close> returns to call 2, which goes on to its
    end, and then to call 3, which goes on to its end.

  \<open>overlapping_run n\<close> is the state after the first \<open>n\<close> events.
\<close>

definition overlapping_getContext :: "pool_event list" where
  "overlapping_getContext =
     [Call 0 Call_initialize 0, Resume 0 0 None, Resume 0 0 None, Resume 0 0 None,
      Call 1 Call_getContext 1, Call 2 Call_getContext 1, Call 3 Call_getContext 1,
      Resume 1 1 None, Resume 2 1 None, Resume 3 1 None,
      Resume 2 2 None, Resume 2 2 None, Resume 3 2 None, Resume 3 2 None]"

definition overlapping_run :: "nat \<Rightarrow> pool_run" where
  "overlapping_run n =
     fold run_event (take n overlapping_getContext)
       (new_pool_run (defaults\<lparr>cfg_maxConcurrency := Some 2\<rparr>))"

section \<open>Data of the download layer (types)\<close>

record ImageData =
  image_author :: "string option"
  author :: "string option"
  authorUrl :: "string option"
  width :: "int option"
  height :: "int option"
  vsco_url :: "string option"

type_synonym ImageEntry = "string \<times> ImageData"

text \<open>\<^verbatim>\<open>ImageExistsResult\<close> and \<^verbatim>\<open>SavedFileInfo\<close>; the field \<^verbatim>\<open>size\<close> is \<open>fsize\<close> here.\<close>

record ImageExistsResult =
  exists :: bool
  filepath :: "string option"
  fsize :: "int option"

record SavedFileInfo =
  filepath :: string
  filename :: string
  fsize :: int

text \<open>What \<^verbatim>\<open>extractVscoImageMetadata\<close> returns.\<close>

record VscoMetadata =
  directImageUrl :: string
  uploadDate :: "string option"
  availableSizes :: "string list option"
  srcset :: "string option"
  originalWidth :: "int option"
  originalHeight :: "int option"

record DownloadResult =
  success :: bool
  photoId :: string
  filepath :: "string option"
  filename :: "string option"
  fsize :: "int option"
  author :: "string option"
  authorUrl :: "string option"
  imageUrl :: "string option"
  width :: "int option"
  height :: "int option"
  error :: "string option"
  skipped :: "bool option"
  dryRun :: "bool option"
  uploadDate :: "string option"
  availableSizes :: "string list option"
  srcset :: "string option"
  originalWidth :: "int option"
  originalHeight :: "int option"

text \<open>An object literal that sets only \<^verbatim>\<open>success\<close> and \<^verbatim>\<open>photoId\<close>.\<close>

definition result_of :: "bool \<Rightarrow> string \<Rightarrow> DownloadResult" where
  "result_of ok pid =
     \<lparr>success = ok, photoId = pid, filepath = None, filename = None, fsize = None,
      author = None, authorUrl = None, imageUrl = None, width = None, height = None,
      error = None, skipped = None, dryRun = None, uploadDate = None, availableSizes = None,
      srcset = None, originalWidth = None, originalHeight = None\<rparr>"

text \<open>\<^verbatim>\<open>{ success: false, photoId, error: message, author: imageData.image_author || '' }\<close>\<close>

definition failed_result :: "string \<Rightarrow> string \<Rightarrow> ImageData \<Rightarrow> DownloadResult" where
  "failed_result pid msg imageData =
     (result_of False pid)\<lparr>error := Some msg, author := Some (or_string (image_author imageData) [])\<rparr>"

section \<open>What a download does to the outside\<close>

text \<open>
  The calls that leave the download layer, in the order they are made. \<open>Attempt\<close> marks
  the entry of a single attempt, \<open>ExtractMetadata\<close> the navigation to the VSCO page and the
  reading of its DOM, \<open>FetchImage\<close> the \<^verbatim>\<open>page.goto\<close> of the image resource in
  \<^verbatim>\<open>downloadFromDirectUrl\<close>, \<open>Sleep\<close> a \<^verbatim>\<open>setTimeout\<close> that is awaited.
\<close>

datatype effect =
    Attempt int
  | ImageExists string
  | NewPage nat
  | GetPage
  | ExtractMetadata string
  | FetchImage string
  | SaveImageFile string
  | ClosePage
  | Sleep int
  | AcquireContext
  | ReleaseContextOf nat
  | IncrementDownloaded
  | IncrementSkipped
  | IncrementFailed

text \<open>
  How the outside answers during one attempt: the file system, the browser context, the
  page. \<open>dom_result\<close> is how the body of the \<^verbatim>\<open>try\<close> block of \<^verbatim>\<open>extractVscoImageMetadata\<close>
  ends (the selectors are specific to the site). \<open>page_goto\<close> is how \<^verbatim>\<open>page.goto(imageUrl)\<close>
  ends: it throws, or returns \<^verbatim>\<open>null\<close> or a response. \<open>context_newPage\<close> and
  \<open>browser_getPage\<close> say whether \<^verbatim>\<open>context.newPage()\<close> and \<^verbatim>\<open>this.browser.getPage()\<close>
  throw. A failure of \<^verbatim>\<open>page.close()\<close> is caught and logged in the source and is left out.
\<close>

record http_response =
  ok :: bool
  status :: nat
  body :: "thrown + nat"

record attempt_env =
  fs_imageExists :: "thrown + ImageExistsResult"
  context_newPage :: "thrown option"
  browser_getPage :: "thrown option"
  dom_result :: "thrown + VscoMetadata"
  page_goto :: "thrown + http_response option"
  fs_saveImageFile :: "thrown + SavedFileInfo"

text \<open>The outside answering every attempt alike.\<close>

definition same_env :: "attempt_env \<Rightarrow> int \<Rightarrow> attempt_env" where
  "same_env env attempt = env"

definition is_release :: "effect \<Rightarrow> bool" where
  "is_release x = (case x of ReleaseContextOf _ \<Rightarrow> True | _ \<Rightarrow> False)"

definition is_attempt :: "effect \<Rightarrow> bool" where
  "is_attempt x = (case x of Attempt _ \<Rightarrow> True | _ \<Rightarrow> False)"

definition is_fetch :: "effect \<Rightarrow> bool" where
  "is_fetch x = (case x of FetchImage _ \<Rightarrow> True | _ \<Rightarrow> False)"

definition is_extraction :: "effect \<Rightarrow> bool" where
  "is_extraction x = (case x of ExtractMetadata _ \<Rightarrow> True | _ \<Rightarrow> False)"

section \<open>Strings\<close>

text \<open>\<^verbatim>\<open>photoId.split('/')\<close>\<close>

fun split_slash :: "string \<Rightarrow> string list" where
  "split_slash [] = [[]]"
| "split_slash (c # cs) =
     (if c = CHR ''/'' then [] # split_slash cs
      else (case split_slash cs of [] \<Rightarrow> [[c]] | part # parts \<Rightarrow> (c # part) # parts))"

text \<open>\<^verbatim>\<open>path.basename\<close> on a POSIX path: the part after the last slash, trailing slashes dropped.\<close>

definition basename :: "string \<Rightarrow> string" where
  "basename p =
     rev (takeWhile (\<lambda>c. c \<noteq> CHR ''/'') (dropWhile (\<lambda>c. c = CHR ''/'') (rev p)))"

fun string_of_nat :: "nat \<Rightarrow> string" where
  "string_of_nat n =
     (if n < 10 then [char_of (48 + n)] else string_of_nat (n div 10) @ [char_of (48 + n mod 10)])"

text \<open>The VSCO page of a photo, as both services build it.\<close>

definition vscoImageUrl :: "string \<Rightarrow> ImageData \<Rightarrow> string" where
  "vscoImageUrl pid imageData =
     (let parts = split_slash pid;
          username = hd parts;
          imageId = (case tl parts of [] \<Rightarrow> pid | p1 # _ \<Rightarrow> if p1 = [] then pid else p1)
      in if or_string (vsco_url imageData) [] \<noteq> [] then or_string (vsco_url imageData) []
         else if username \<noteq> [] \<and> imageId \<noteq> [] \<and> imageId \<noteq> username
         then ''https://vsco.co/'' @ username @ ''/media/'' @ imageId
         else ''https://vsco.co/'' @ username)"

section \<open>Sample inputs\<close>

text \<open>An image entry of the manifest with no metadata, and answers of the outside.\<close>

definition no_imageData :: ImageData where
  "no_imageData =
     \<lparr>image_author = None, ImageData.author = None, ImageData.authorUrl = None,
      ImageData.width = None, ImageData.height = None, vsco_url = None\<rparr>"

text \<open>
  The file \<^verbatim>\<open>/downloads/user/abc.jpg\<close> of 2048 bytes exists; the VSCO page would give an
  upload date.
\<close>

definition env_existing :: attempt_env where
  "env_existing =
     \<lparr>fs_imageExists =
        Inr \<lparr>exists = True, ImageExistsResult.filepath = Some ''/downloads/user/abc.jpg'',
             ImageExistsResult.fsize = Some 2048\<rparr>,
      context_newPage = None,
      browser_getPage = None,
      dom_result =
        Inr \<lparr>directImageUrl = ''https://im.vsco.co/abc.jpg'', VscoMetadata.uploadDate = Some ''2024-05-01'',
             VscoMetadata.availableSizes = None, VscoMetadata.srcset = None,
             VscoMetadata.originalWidth = None, VscoMetadata.originalHeight = None\<rparr>,
      page_goto = Inr (Some \<lparr>ok = True, status = 200, body = Inr 2048\<rparr>),
      fs_saveImageFile =
        Inr \<lparr>SavedFileInfo.filepath = ''/downloads/user/abc.jpg'',
             SavedFileInfo.filename = ''abc.jpg'', SavedFileInfo.fsize = 2048\<rparr>\<rparr>"

text \<open>No file yet, and every call to the outside succeeds.\<close>

definition env_fresh :: attempt_env where
  "env_fresh = env_existing\<lparr>fs_imageExists := Inr \<lparr>exists = False, ImageExistsResult.filepath = None, ImageExistsResult.fsize = None\<rparr>\<rparr>"

text \<open>\<^verbatim>\<open>fs.imageExists\<close> throws an error with the given message.\<close>

definition env_failing :: "string \<Rightarrow> attempt_env" where
  "env_failing msg = env_existing\<lparr>fs_imageExists := Inl (Error msg)\<rparr>"

section \<open>One attempt (ConcurrentDownloadService.attemptDownloadWithContext)\<close>

text \<open>
  A function of the source that may throw and that calls the outside returns the calls
  it made and either what it threw or what it returned.
\<close>

definition truthy_string :: "string option \<Rightarrow> string option" where
  "truthy_string v = (case v of None \<Rightarrow> None | Some s \<Rightarrow> if s = [] then None else Some s)"

definition truthy_int :: "int option \<Rightarrow> int option" where
  "truthy_int v = (case v of None \<Rightarrow> None | Some n \<Rightarrow> if n = 0 then None else Some n)"

definition extractVscoImageMetadata ::
  "attempt_env \<Rightarrow> string \<Rightarrow> effect list \<times> (thrown + VscoMetadata)" where
  "extractVscoImageMetadata env url =
     ([ExtractMetadata url],
      case dom_result env of
        Inl e \<Rightarrow> Inl (Error (''Failed to extract VSCO image URL: '' @ errorMessage e))
      | Inr metadata \<Rightarrow>
          Inr \<lparr>directImageUrl = directImageUrl metadata,
               uploadDate = truthy_string (VscoMetadata.uploadDate metadata),
               availableSizes = VscoMetadata.availableSizes metadata,
               srcset = truthy_string (VscoMetadata.srcset metadata),
               originalWidth = truthy_int (VscoMetadata.originalWidth metadata),
               originalHeight = truthy_int (VscoMetadata.originalHeight metadata)\<rparr>)"

definition downloadFromDirectUrl ::
  "attempt_env \<Rightarrow> string \<Rightarrow> string \<Rightarrow> ImageData \<Rightarrow> VscoMetadata
     \<Rightarrow> effect list \<times> (thrown + DownloadResult)" where
  "downloadFromDirectUrl env url pid imageData vscoMetadata =
     (let rethrow = (\<lambda>e. Inl (Error (''Failed to download from direct URL: '' @ errorMessage e)))
      in case page_goto env of
           Inl e \<Rightarrow> ([FetchImage url], rethrow e)
         | Inr None \<Rightarrow> ([FetchImage url], rethrow (Error ''HTTP undefined: Failed to fetch image''))
         | Inr (Some response) \<Rightarrow>
             if \<not> ok response
             then ([FetchImage url],
                   rethrow (Error (''HTTP '' @ string_of_nat (status response) @
                                   '': Failed to fetch image'')))
             else (case body response of
                     Inl e \<Rightarrow> ([FetchImage url], rethrow e)
                   | Inr len \<Rightarrow>
                       if len = 0
                       then ([FetchImage url], rethrow (Error ''Empty image data received''))
                       else (case fs_saveImageFile env of
                               Inl e \<Rightarrow> ([FetchImage url, SaveImageFile pid], rethrow e)
                             | Inr savedFile \<Rightarrow>
                                 ([FetchImage url, SaveImageFile pid],
                                  Inr ((result_of True pid)
                                    \<lparr>filepath := Some (SavedFileInfo.filepath savedFile),
                                     filename := Some (SavedFileInfo.filename savedFile),
                                     fsize := Some (SavedFileInfo.fsize savedFile),
                                     author :=
                                       (if or_string (ImageData.author imageData) [] \<noteq> []
                                        then ImageData.author imageData
                                        else image_author imageData),
                                     authorUrl := ImageData.authorUrl imageData,
                                     imageUrl := Some url,
                                     width := ImageData.width imageData,
                                     height := ImageData.height imageData,
                                     uploadDate := VscoMetadata.uploadDate vscoMetadata,
                                     availableSizes := VscoMetadata.availableSizes vscoMetadata,
                                     srcset := VscoMetadata.srcset vscoMetadata\<rparr>)))))"

text \<open>
  The result for a file that exists already. \<^verbatim>\<open>basename(existingFile.filepath!)\<close> throws a
  \<^verbatim>\<open>TypeError\<close> when the path is \<^verbatim>\<open>undefined\<close>.
\<close>

definition skipped_result :: "string \<Rightarrow> ImageData \<Rightarrow> ImageExistsResult \<Rightarrow> thrown + DownloadResult" where
  "skipped_result pid imageData existingFile =
     (case ImageExistsResult.filepath existingFile of
        None \<Rightarrow> Inl (Error ''The path argument must be of type string. Received undefined'')
      | Some fp \<Rightarrow>
          Inr ((result_of True pid)
            \<lparr>filepath := Some fp,
             filename := Some (basename fp),
             fsize := Some (case ImageExistsResult.fsize existingFile of None \<Rightarrow> 0 | Some n \<Rightarrow> n),
             skipped := Some True,
             author := Some (or_string (image_author imageData) [])\<rparr>))"

definition dryRun_result :: "string \<Rightarrow> ImageData \<Rightarrow> DownloadResult" where
  "dryRun_result pid imageData =
     (result_of True pid)\<lparr>dryRun := Some True, author := Some (or_string (image_author imageData) [])\<rparr>"

definition attemptDownloadWithContext ::
  "Config \<Rightarrow> attempt_env \<Rightarrow> nat \<Rightarrow> string \<Rightarrow> ImageData \<Rightarrow> int
     \<Rightarrow> effect list \<times> (thrown + DownloadResult)" where
  "attemptDownloadWithContext config env context pid imageData attempt =
     (case fs_imageExists env of
        Inl e \<Rightarrow> ([Attempt attempt, ImageExists pid], Inl e)
      | Inr existingFile \<Rightarrow>
          if exists existingFile
          then ([Attempt attempt, ImageExists pid], skipped_result pid imageData existingFile)
          else if cfg_dryRun config
          then ([Attempt attempt, ImageExists pid], Inr (dryRun_result pid imageData))
          else (case context_newPage env of
                  Some e \<Rightarrow> ([Attempt attempt, ImageExists pid, NewPage context], Inl e)
                | None \<Rightarrow>
                    (let (tr1, extracted) = extractVscoImageMetadata env (vscoImageUrl pid imageData);
                         (tr2, downloadResult) =
                           (case extracted of
                              Inl e \<Rightarrow> ([], Inl e)
                            | Inr vscoMetadata \<Rightarrow>
                                downloadFromDirectUrl env (directImageUrl vscoMetadata) pid
                                  imageData vscoMetadata)
                     in ([Attempt attempt, ImageExists pid, NewPage context] @ tr1 @ tr2 @ [ClosePage],
                         downloadResult))))"

section \<open>One attempt of the sequential service (DownloadService.attemptDownload)\<close>

definition DownloadService_extractVscoImageMetadata ::
  "attempt_env \<Rightarrow> string \<Rightarrow> effect list \<times> (thrown + VscoMetadata)" where
  "DownloadService_extractVscoImageMetadata env url =
     (case browser_getPage env of
        Some e \<Rightarrow> ([GetPage], Inl e)
      | None \<Rightarrow> (let (tr, r) = extractVscoImageMetadata env url in (GetPage # tr, r)))"

definition DownloadService_downloadFromDirectUrl ::
  "attempt_env \<Rightarrow> string \<Rightarrow> string \<Rightarrow> ImageData \<Rightarrow> VscoMetadata
     \<Rightarrow> effect list \<times> (thrown + DownloadResult)" where
  "DownloadService_downloadFromDirectUrl env url pid imageData vscoMetadata =
     (case browser_getPage env of
        Some e \<Rightarrow> ([GetPage], Inl e)
      | None \<Rightarrow>
          (let (tr, r) = downloadFromDirectUrl env url pid imageData vscoMetadata
           in (GetPage # tr, r)))"

definition DownloadService_attemptDownload ::
  "Config \<Rightarrow> attempt_env \<Rightarrow> string \<Rightarrow> ImageData \<Rightarrow> int
     \<Rightarrow> effect list \<times> (thrown + DownloadResult)" where
  "DownloadService_attemptDownload config env pid imageData attempt =
     (case fs_imageExists env of
        Inl e \<Rightarrow> ([Attempt attempt, ImageExists pid], Inl e)
      | Inr existingFile \<Rightarrow>
          if exists existingFile
          then (let (tr, extracted) =
                      DownloadService_extractVscoImageMetadata env (vscoImageUrl pid imageData)
                in ([Attempt attempt, ImageExists pid, IncrementSkipped] @ tr,
                    case extracted of
                      Inl _ \<Rightarrow> skipped_result pid imageData existingFile
                    | Inr vscoMetadata \<Rightarrow>
                        (case skipped_result pid imageData existingFile of
                           Inl _ \<Rightarrow> skipped_result pid imageData existingFile
                         | Inr r \<Rightarrow>
                             Inr (r\<lparr>uploadDate := truthy_string (VscoMetadata.uploadDate vscoMetadata),
                                    availableSizes := VscoMetadata.availableSizes vscoMetadata,
                                    srcset := truthy_string (VscoMetadata.srcset vscoMetadata),
                                    originalWidth := truthy_int (VscoMetadata.originalWidth vscoMetadata),
                                    originalHeight := truthy_int (VscoMetadata.originalHeight vscoMetadata)\<rparr>))))
          else if cfg_dryRun config
          then ([Attempt attempt, ImageExists pid, IncrementDownloaded],
                Inr (dryRun_result pid imageData))
          else (let (tr1, extracted) =
                      DownloadService_extractVscoImageMetadata env (vscoImageUrl pid imageData)
                in case extracted of
                     Inl e \<Rightarrow> ([Attempt attempt, ImageExists pid] @ tr1, Inl e)
                   | Inr vscoMetadata \<Rightarrow>
                       (let (tr2, downloadResult) =
                              DownloadService_downloadFromDirectUrl env (directImageUrl vscoMetadata)
                                pid imageData vscoMetadata
                        in case downloadResult of
                             Inl e \<Rightarrow> ([Attempt attempt, ImageExists pid] @ tr1 @ tr2, Inl e)
                           | Inr r \<Rightarrow>
                               ([Attempt attempt, ImageExists pid] @ tr1 @ tr2 @
                                  (if success r then [IncrementDownloaded] else []),
                                Inr r))))"

section \<open>Retrying (ConcurrentDownloadService.downloadImageWithContext)\<close>

text \<open>
  \<^verbatim>\<open>lastError?.message || "Unknown error after all retries"\<close>: an error that was never
  set, a thrown value without a message and an empty message all give the default.
\<close>

definition lastErrorMessage :: "thrown option \<Rightarrow> string" where
  "lastErrorMessage lastError =
     (case lastError of
        Some (Error m) \<Rightarrow> if m = [] then ''Unknown error after all retries'' else m
      | _ \<Rightarrow> ''Unknown error after all retries'')"

text \<open>
  The \<^verbatim>\<open>for\<close> loop from the value \<open>attempt\<close> of its counter on; \<open>att\<close> is the call
  \<^verbatim>\<open>this.attemptDownloadWithContext(context, photoId, imageData, attempt)\<close> as a function
  of the counter.
\<close>

function retryLoop ::
  "(int \<Rightarrow> effect list \<times> (thrown + DownloadResult)) \<Rightarrow> string \<Rightarrow> ImageData \<Rightarrow> int \<Rightarrow> int
     \<Rightarrow> thrown option \<Rightarrow> effect list \<times> DownloadResult" where
  "retryLoop att pid imageData retries attempt lastError =
     (if attempt \<le> retries
      then (case att attempt of
              (tr, Inr r) \<Rightarrow> (tr, r)
            | (tr, Inl e) \<Rightarrow>
                (let backoff = (if attempt < retries then [Sleep (2 ^ nat attempt * 1000)] else []);
                     (rest, r) = retryLoop att pid imageData retries (attempt + 1) (Some e)
                 in (tr @ backoff @ rest, r)))
      else ([], failed_result pid (lastErrorMessage lastError) imageData))"
  by pat_completeness auto
termination
  by (relation "measure (\<lambda>(att, pid, imageData, retries, attempt, lastError).
                   nat (retries + 1 - attempt))") auto

declare retryLoop.simps [simp del]

definition downloadImageWithContext ::
  "Config \<Rightarrow> (int \<Rightarrow> attempt_env) \<Rightarrow> nat \<Rightarrow> string \<Rightarrow> ImageData \<Rightarrow> effect list \<times> DownloadResult" where
  "downloadImageWithContext config envs context pid imageData =
     retryLoop (\<lambda>attempt. attemptDownloadWithContext config (envs attempt) context pid imageData attempt)
       pid imageData (or_default (cfg_retries config) 3) 1 None"

section \<open>The task of one item (ConcurrentDownloadService.downloadSingleImage)\<close>

text \<open>
  What one task meets: the pool as its \<^verbatim>\<open>getContext\<close> finds it, the clock, and the answers
  of the outside during each attempt. The pool is shared by the tasks of a batch, so the
  state a task finds depends on the other tasks; the model takes it as given, and releases
  the context into the pool that \<^verbatim>\<open>getContext\<close> left.
\<close>

record task_world =
  pool_found :: BrowserPool
  clock :: int
  attempt_envs :: "int \<Rightarrow> attempt_env"

text \<open>
  The \<^verbatim>\<open>try\<close> block: the context it got (the variable \<^verbatim>\<open>context\<close>, \<open>None\<close> for \<^verbatim>\<open>null\<close>),
  the pool, the calls made, and what the block threw or returned.
\<close>

definition downloadSingleImage_try ::
  "Config \<Rightarrow> task_world \<Rightarrow> ImageEntry
     \<Rightarrow> BrowserPool \<times> nat option \<times> effect list \<times> (thrown + DownloadResult)" where
  "downloadSingleImage_try config w entry =
     (let (pid, imageData) = entry in
      case getContext (clock w) (pool_found w) of
        (p1, Inl e) \<Rightarrow> (p1, None, [AcquireContext], Inl e)
      | (p1, Inr context) \<Rightarrow>
          (let (tr, result) = downloadImageWithContext config (attempt_envs w) context pid imageData;
               counted =
                 (if success result \<and> skipped result \<noteq> Some True then IncrementDownloaded
                  else if skipped result = Some True then IncrementSkipped
                  else IncrementFailed)
           in (p1, Some context, [AcquireContext] @ tr @ [counted], Inr result)))"

definition downloadSingleImage ::
  "Config \<Rightarrow> task_world \<Rightarrow> ImageEntry \<Rightarrow> int \<Rightarrow> int
     \<Rightarrow> BrowserPool \<times> effect list \<times> (thrown + DownloadResult)" where
  "downloadSingleImage config w entry currentIndex totalCount =
     (let (pid, imageData) = entry;
          (p1, context, tr_try, tried) = downloadSingleImage_try config w entry;
          (tr_catch, settled) =
            (case tried of
               Inr result \<Rightarrow> ([], Inr result)
             | Inl e \<Rightarrow> ([IncrementFailed], Inr (failed_result pid (errorMessage e) imageData)));
          (p2, tr_finally) =
            (case context of
               None \<Rightarrow> (p1, [])
             | Some c \<Rightarrow> (releaseContext (clock w) c p1, [ReleaseContextOf c]))
      in (p2, tr_try @ tr_catch @ tr_finally, settled))"

section \<open>A batch (ConcurrentDownloadService.processBatch)\<close>

text \<open>
  The tasks of a batch run interleaved, and the order in which they settle is not fixed
  by the code. A schedule fixes it: each of its numbers picks, among the tasks that hold a
  slot of the semaphore, the one that settles next (past its end the oldest holder
  settles). \<open>settle_all\<close> is \<^verbatim>\<open>Promise.all\<close> over the promises of \<^verbatim>\<open>acquire\<close>: it collects the
  value of each task under its index, settles with the first rejection, and never settles
  (the result \<open>None\<close>) when tasks wait in the queue and nothing holds a slot.
\<close>

function settle_all ::
  "(nat \<Rightarrow> thrown + 'r) \<Rightarrow> nat list \<Rightarrow> Semaphore \<Rightarrow> (nat \<rightharpoonup> 'r) \<Rightarrow> (thrown + (nat \<rightharpoonup> 'r)) option" where
  "settle_all task sched s vals =
     (if holders s = [] then (if queue s = [] then Some (Inr vals) else None)
      else (let t = holders s ! ((case sched of [] \<Rightarrow> 0 | c # _ \<Rightarrow> c) mod length (holders s))
            in case task t of
                 Inl e \<Rightarrow> Some (Inl e)
               | Inr r \<Rightarrow>
                   settle_all task (tl sched) (last (execute_finally t True s)) (vals(t \<mapsto> r))))"
  by pat_completeness auto
termination
proof (relation "measure (\<lambda>(task, sched, s, vals). length (holders s) + length (queue s))")
  show "wf (measure (\<lambda>(task, sched, s, vals). length (holders s) + length (queue s)))"
    by simp
next
  fix task :: "nat \<Rightarrow> thrown + 'r" and sched :: "nat list" and s :: Semaphore
    and vals :: "nat \<rightharpoonup> 'r" and t r
  assume ne: "holders s \<noteq> []"
    and t: "t = holders s ! ((case sched of [] \<Rightarrow> 0 | c # _ \<Rightarrow> c) mod length (holders s))"
  from ne have mem: "t \<in> set (holders s)"
    unfolding t by (intro nth_mem mod_less_divisor) simp
  from ne have "0 < length (holders s)"
    by simp
  with mem have "length (remove1 t (holders s)) < length (holders s)"
    by (simp add: length_remove1)
  then have "length (holders (last (execute_finally t True s)))
               + length (queue (last (execute_finally t True s)))
             < length (holders s) + length (queue s)"
    by (cases "queue s") (auto simp: execute_finally_def execute_enter_def Let_def)
  then show "((task, tl sched, last (execute_finally t True s), vals(t \<mapsto> r)),
              (task, sched, s, vals))
             \<in> measure (\<lambda>(task, sched, s, vals). length (holders s) + length (queue s))"
    by simp
qed

declare settle_all.simps [simp del]

definition processBatch ::
  "Config \<Rightarrow> (nat \<Rightarrow> task_world) \<Rightarrow> nat list \<Rightarrow> ImageEntry list \<Rightarrow> int \<Rightarrow> int
     \<Rightarrow> (thrown + DownloadResult list) option" where
  "processBatch config worlds sched batch startIndex endIndex =
     (let maxConcurrency = or_default (cfg_maxConcurrency config) 3;
          concurrency = min (int (length batch)) maxConcurrency;
          semaphore = fold acquire [0..<length batch] (new_Semaphore concurrency);
          task = (\<lambda>batchIndex.
                    snd (snd (downloadSingleImage config (worlds batchIndex) (batch ! batchIndex)
                                (startIndex + int batchIndex + 1) endIndex)))
      in case settle_all task sched semaphore Map.empty of
           None \<Rightarrow> None
         | Some (Inl e) \<Rightarrow> Some (Inl e)
         | Some (Inr vals) \<Rightarrow> Some (Inr (map (\<lambda>i. the (vals i)) [0..<length batch])))"

section \<open>All items (ConcurrentDownloadService.downloadImagesConcurrently)\<close>

text \<open>\<^verbatim>\<open>Array.prototype.slice(start, end)\<close>: a negative index counts from the end.\<close>

definition js_slice :: "'a list \<Rightarrow> int \<Rightarrow> int \<Rightarrow> 'a list" where
  "js_slice xs start end =
     (let n = int (length xs);
          a = (if start < 0 then max (n + start) 0 else min start n);
          b = (if end < 0 then max (n + end) 0 else min end n)
      in take (nat (b - a)) (drop (nat a) xs))"

text \<open>
  What the loop over the batches does, in order: a call of \<^verbatim>\<open>processBatch\<close> with its three
  arguments, or an awaited \<^verbatim>\<open>setTimeout\<close> between two batches.
\<close>

datatype batch_event = ProcessBatch "ImageEntry list" int int | Wait int

text \<open>
  The \<^verbatim>\<open>for\<close> loop from the value \<open>i\<close> of its counter on. The worlds and the schedule of a
  batch are given per value of the counter. The loop need not end (a negative
  \<^verbatim>\<open>batchSize\<close> never reaches the length), so its result is an option, \<open>None\<close> when the call
  never returns.
\<close>

partial_function (option) batchLoop ::
  "Config \<Rightarrow> (int \<Rightarrow> nat \<Rightarrow> task_world) \<Rightarrow> (int \<Rightarrow> nat list) \<Rightarrow> ImageEntry list \<Rightarrow> int
     \<Rightarrow> DownloadResult list \<Rightarrow> batch_event list
     \<Rightarrow> (thrown + DownloadResult list \<times> batch_event list) option" where
  "batchLoop config worlds scheds imageEntries i results events =
     (if i < int (length imageEntries)
      then (let maxConcurrency = or_default (cfg_maxConcurrency config) 3;
                batchSize = or_default (cfg_batchSize config) maxConcurrency;
                delayBetweenBatches = or_default (cfg_delayBetweenBatches config) 1000;
                batchEnd = min (i + batchSize) (int (length imageEntries));
                batch = js_slice imageEntries i batchEnd
            in case processBatch config (worlds i) (scheds i) batch i batchEnd of
                 None \<Rightarrow> None
               | Some (Inl e) \<Rightarrow> Some (Inl e)
               | Some (Inr batchResults) \<Rightarrow>
                   batchLoop config worlds scheds imageEntries (i + batchSize)
                     (results @ batchResults)
                     (events @ [ProcessBatch batch i batchEnd] @
                        (if batchEnd < int (length imageEntries) \<and> delayBetweenBatches > 0
                         then [Wait delayBetweenBatches] else [])))
      else Some (Inr (results, events)))"

declare batchLoop.simps [code]

definition downloadImagesConcurrently ::
  "Config \<Rightarrow> (int \<Rightarrow> nat \<Rightarrow> task_world) \<Rightarrow> (int \<Rightarrow> nat list) \<Rightarrow> ImageEntry list
     \<Rightarrow> (thrown + DownloadResult list \<times> batch_event list) option" where
  "downloadImagesConcurrently config worlds scheds imageEntries =
     (if \<not> (case cfg_enableBatching config of None \<Rightarrow> True | Some b \<Rightarrow> b)
      then (case processBatch config (worlds 0) (scheds 0) imageEntries 0
                   (int (length imageEntries)) of
              None \<Rightarrow> None
            | Some (Inl e) \<Rightarrow> Some (Inl e)
            | Some (Inr rs) \<Rightarrow>
                Some (Inr (rs, [ProcessBatch imageEntries 0 (int (length imageEntries))])))
      else batchLoop config worlds scheds imageEntries 0 [] [])"

section \<open>Sample worlds\<close>

text \<open>
  A task that finds an initialized pool with one free context and an outside where every
  call succeeds, and a task that finds a pool on which \<^verbatim>\<open>initialize\<close> was never called.
\<close>

definition world_ready :: task_world where
  "world_ready =
     \<lparr>pool_found = fst (initialize None 0 (new_BrowserPool defaults [])), clock = 1,
      attempt_envs = same_env env_fresh\<rparr>"

definition world_uninitialized :: task_world where
  "world_uninitialized =
     \<lparr>pool_found = new_BrowserPool defaults [], clock = 1, attempt_envs = same_env env_fresh\<rparr>"

text \<open>The first task of a batch finds the pool uninitialized, the others find it ready.\<close>

definition sample_worlds :: "nat \<Rightarrow> task_world" where
  "sample_worlds batchIndex = (if batchIndex = 0 then world_uninitialized else world_ready)"



text \<open>What the task of one item settles with, once it is known not to reject.\<close>

definition task_result :: "Config \<Rightarrow> task_world \<Rightarrow> ImageEntry \<Rightarrow> int \<Rightarrow> int \<Rightarrow> DownloadResult" where
  "task_result config w entry currentIndex totalCount =
     projr (snd (snd (downloadSingleImage config w entry currentIndex totalCount)))"

section \<open>The batches as the specification describes them\<close>

text \<open>
  The consecutive slices of length \<open>b\<close> of a list from position \<open>i\<close> on, each with the
  position where it starts; the last slice may be shorter.
\<close>

function batches_from :: "nat \<Rightarrow> nat \<Rightarrow> 'a list \<Rightarrow> (nat \<times> 'a list) list" where
  "batches_from b i xs =
     (if b = 0 \<or> length xs \<le> i then []
      else (i, take b (drop i xs)) # batches_from b (i + b) xs)"
  by pat_completeness auto
termination
  by (relation "measure (\<lambda>(b, i, xs). length xs - i)") auto

declare batches_from.simps [simp del]

text \<open>
  The results of the batch that starts at position \<open>i\<close>, in the order of its items, and
  what the loop does for it: the call of \<^verbatim>\<open>processBatch\<close>, then the wait of \<open>d\<close> ms
  (when \<open>d\<close> is positive) unless the batch reaches the end of the input.
\<close>

definition batch_results ::
  "Config \<Rightarrow> (int \<Rightarrow> nat \<Rightarrow> task_world) \<Rightarrow> int \<Rightarrow> nat \<Rightarrow> nat \<times> ImageEntry list \<Rightarrow> DownloadResult list" where
  "batch_results config worlds b n x =
     (case x of (i, batch) \<Rightarrow>
        map (\<lambda>j. task_result config (worlds (int i) j) (batch ! j) (int i + int j + 1)
                    (min (int i + b) (int n)))
          [0..<length batch])"

definition batch_events :: "int \<Rightarrow> int \<Rightarrow> nat \<Rightarrow> nat \<times> ImageEntry list \<Rightarrow> batch_event list" where
  "batch_events b d n x =
     (case x of (i, batch) \<Rightarrow>
        ProcessBatch batch (int i) (min (int i + b) (int n)) #
        (if i + nat b < n \<and> 0 < d then [Wait d] else []))"

definition is_wait :: "batch_event \<Rightarrow> bool" where
  "is_wait x = (case x of Wait _ \<Rightarrow> True | _ \<Rightarrow> False)"

section \<open>Sample batches\<close>

definition five_items :: "ImageEntry list" where
  "five_items =
     [(''user/a'', no_imageData), (''user/b'', no_imageData), (''user/c'', no_imageData),
      (''user/d'', no_imageData), (''user/e'', no_imageData)]"

text \<open>In every batch the first task finds the pool uninitialized; the tasks settle last first.\<close>

definition sample_batch_worlds :: "int \<Rightarrow> nat \<Rightarrow> task_world" where
  "sample_batch_worlds i = sample_worlds"

definition sample_scheds :: "int \<Rightarrow> nat list" where
  "sample_scheds i = [2, 1, 0]"

section \<open>Configuration from the command line\<close>

text \<open>
  The theorems below about batches assume \<open>maxConcurrency \<ge> 1\<close>, \<open>batchSize \<ge> 1\<close> and a
  positive delay, for the values after the defaults of \<^verbatim>\<open>||\<close>. Every configuration that the
  command line builds has them.
\<close>

lemma command_line_options_in_range:
  "0 < or_default (cfg_maxConcurrency (buildDownloaderOptions c b d nb r dr)) 3 \<and>
   0 < or_default (cfg_batchSize (buildDownloaderOptions c b d nb r dr))
         (or_default (cfg_maxConcurrency (buildDownloaderOptions c b d nb r dr)) 3) \<and>
   0 < or_default (cfg_delayBetweenBatches (buildDownloaderOptions c b d nb r dr)) 1000"
  by (cases c; cases b; cases d) (auto simp: buildDownloaderOptions_def or_default_def)

section \<open>Semaphore: bound on the slots\<close>

lemma sem_step_nonempty: "sem_step e s \<noteq> []"
  by (cases e) (auto simp: execute_finally_def Let_def split: list.splits)

lemma sem_inv_new: "0 \<le> k \<Longrightarrow> sem_inv k (new_Semaphore k)"
  by (simp add: sem_inv_def new_Semaphore_def)

lemma sem_inv_acquire: "sem_inv k s \<Longrightarrow> sem_inv k (acquire t s)"
  by (auto simp: sem_inv_def acquire_def execute_enter_def)

lemma length_remove1_mem: "t \<in> set xs \<Longrightarrow> int (length (remove1 t xs)) = int (length xs) - 1"
proof -
  assume mem: "t \<in> set xs"
  then have "0 < length xs" by (rule length_pos_if_in_set)
  then have "int (length xs - 1) = int (length xs) - 1" by arith
  with mem show ?thesis by (simp add: length_remove1)
qed

lemma sem_inv_execute_finally:
  assumes "sem_inv k s" and "t \<in> set (holders s)" and "s' \<in> set (execute_finally t b s)"
  shows "sem_inv k s'"
proof -
  from assms(2) have pos: "0 < length (holders s)"
    by (rule length_pos_if_in_set)
  from assms(2) have len: "int (length (remove1 t (holders s))) = int (length (holders s)) - 1"
    by (rule length_remove1_mem)
  from assms(1,3) pos len show ?thesis
    by (auto simp: sem_inv_def execute_finally_def execute_enter_def Let_def
        split: list.splits if_splits)
qed

lemma sem_inv_step: "sem_inv k s \<Longrightarrow> s' \<in> set (sem_step e s) \<Longrightarrow> sem_inv k s'"
  by (cases e) (auto simp: sem_inv_acquire sem_inv_execute_finally split: if_splits)

lemma sem_inv_trace: "sem_inv k s \<Longrightarrow> s' \<in> set (sem_trace es s) \<Longrightarrow> sem_inv k s'"
proof (induction es arbitrary: s)
  case Nil
  then show ?case by simp
next
  case (Cons e es)
  have ne: "sem_step e s \<noteq> []" by (rule sem_step_nonempty)
  from Cons.prems(2) consider "s' = s" | "s' \<in> set (butlast (sem_step e s))"
    | "s' \<in> set (sem_trace es (last (sem_step e s)))"
    by auto
  then show ?case
  proof cases
    case 1
    with Cons.prems(1) show ?thesis by simp
  next
    case 2
    then have "s' \<in> set (sem_step e s)" by (rule in_set_butlastD)
    with Cons.prems(1) show ?thesis by (rule sem_inv_step)
  next
    case 3
    from ne have "last (sem_step e s) \<in> set (sem_step e s)" by simp
    with Cons.prems(1) have "sem_inv k (last (sem_step e s))" by (rule sem_inv_step)
    from this 3 show ?thesis by (rule Cons.IH)
  qed
qed

lemma execute_finally_last:
  "last (execute_finally t b s) =
     (let s1 = s\<lparr>outcomes := outcomes s @ [(t, b)], currentCount := currentCount s - 1,
                 holders := remove1 t (holders s)\<rparr>
      in case queue s of [] \<Rightarrow> s1 | n # rest \<Rightarrow> execute_enter n True (s1\<lparr>queue := rest\<rparr>))"
  by (cases "queue s") (simp_all add: execute_finally_def Let_def)

lemma execute_finally_slots:
  "holders (last (execute_finally t b s)) = remove1 t (holders s) @ take 1 (queue s) \<and>
   queue (last (execute_finally t b s)) = tl (queue s) \<and>
   currentCount (last (execute_finally t b s)) = currentCount s - 1 + int (length (take 1 (queue s)))"
  by (cases "queue s") (simp_all add: execute_finally_last execute_enter_def Let_def)

text \<open>
  C2. For a semaphore made with \<open>maxConcurrent = k\<close> (\<open>k\<close> not negative) and any sequence of
  acquire calls and task completions, fulfilled or rejected, every state the semaphore
  passes through has \<open>0 \<le> currentCount \<le> k\<close>, and \<open>currentCount\<close> is exactly the number of
  tasks that have been started and have not yet run their \<^verbatim>\<open>finally\<close> block, so a task runs
  only inside a slot and at most \<open>k\<close> run at once. When the task of a slot holder settles,
  with either outcome, its slot is given up and the head of the queue, if any, is started:
  a rejected task does not leak a slot.
\<close>

theorem semaphore_count_invariant:
  assumes "0 \<le> k" and "s \<in> set (sem_trace events (new_Semaphore k))"
  shows "0 \<le> currentCount s \<and> currentCount s \<le> k \<and>
         currentCount s = int (length (holders s)) \<and>
         (\<forall>t b. holders (last (execute_finally t b s)) = remove1 t (holders s) @ take 1 (queue s) \<and>
                queue (last (execute_finally t b s)) = tl (queue s) \<and>
                currentCount (last (execute_finally t b s)) =
                  currentCount s - 1 + int (length (take 1 (queue s))))"
proof -
  from assms(1) have "sem_inv k (new_Semaphore k)"
    by (rule sem_inv_new)
  from this assms(2) have "sem_inv k s"
    by (rule sem_inv_trace)
  then show ?thesis
    by (simp add: sem_inv_def execute_finally_slots)
qed

theorem semaphore_count_invariant_witness:
  "(0::int) \<le> 1 \<and>
   sem_final [Acquire 0, Acquire 1, Settle 0 False] (new_Semaphore 1)
     \<in> set (sem_trace [Acquire 0, Acquire 1, Settle 0 False] (new_Semaphore 1)) \<and>
   currentCount (sem_final [Acquire 0, Acquire 1, Settle 0 False] (new_Semaphore 1)) = 1 \<and>
   holders (sem_final [Acquire 0, Acquire 1, Settle 0 False] (new_Semaphore 1)) = [1]"
proof -
  have mem: "sem_final [Acquire 0, Acquire 1, Settle 0 False] (new_Semaphore 1)
               \<in> set (sem_trace [Acquire 0, Acquire 1, Settle 0 False] (new_Semaphore 1))"
    by (simp add: new_Semaphore_def acquire_def execute_enter_def execute_finally_def Let_def)
  have h: "holders (sem_final [Acquire 0, Acquire 1, Settle 0 False] (new_Semaphore 1)) = [1]"
    by (simp add: new_Semaphore_def acquire_def execute_enter_def execute_finally_def Let_def)
  from semaphore_count_invariant [of 1, OF _ mem] h mem show ?thesis
    by simp
qed

section \<open>Semaphore: order of the queue\<close>

lemma fifo_inv_new: "fifo_inv (new_Semaphore k)"
  by (simp add: fifo_inv_def new_Semaphore_def)

lemma fifo_inv_acquire: "fifo_inv s \<Longrightarrow> fifo_inv (acquire t s)"
  by (simp add: fifo_inv_def acquire_def execute_enter_def)

lemma fifo_inv_execute_finally: "fifo_inv s \<Longrightarrow> fifo_inv (last (execute_finally t b s))"
  by (cases "queue s") (auto simp: fifo_inv_def execute_finally_last execute_enter_def Let_def)

lemma fifo_inv_step: "fifo_inv s \<Longrightarrow> fifo_inv (last (sem_step e s))"
  by (cases e) (simp_all add: fifo_inv_acquire fifo_inv_execute_finally)

lemma fifo_inv_final: "fifo_inv s \<Longrightarrow> fifo_inv (sem_final es s)"
  by (induction es arbitrary: s) (simp_all add: fifo_inv_step)

text \<open>
  C3. After any sequence of acquire calls and task completions, the tasks that were
  started out of the queue, in the order they were started, followed by the tasks that
  still wait, are the queued acquire calls in the order they were made. So of two acquire
  calls that were both queued, the one made first is started first: when the later one
  has been started, the earlier one was started at an earlier position.
\<close>

theorem semaphore_fifo:
  assumes "s = sem_final events (new_Semaphore k)"
    and "dequeued = map fst (filter snd (started s))"
  shows "dequeued @ queue s = waited s \<and>
         (\<forall>i j. i < j \<and> j < length dequeued \<longrightarrow>
                dequeued ! i = waited s ! i \<and> dequeued ! j = waited s ! j)"
proof -
  have "fifo_inv s"
    unfolding assms(1) by (rule fifo_inv_final) (rule fifo_inv_new)
  then have eq: "dequeued @ queue s = waited s"
    by (simp add: fifo_inv_def assms(2))
  have "dequeued ! i = waited s ! i" if "i < length dequeued" for i
    using that eq by (metis nth_append)
  with eq show ?thesis
    by auto
qed

theorem semaphore_fifo_witness:
  "map fst (filter snd (started (sem_final
       [Acquire 0, Acquire 1, Acquire 2, Settle 0 True, Settle 1 False] (new_Semaphore 1)))) = [1, 2] \<and>
   waited (sem_final
       [Acquire 0, Acquire 1, Acquire 2, Settle 0 True, Settle 1 False] (new_Semaphore 1)) = [1, 2] \<and>
   (0::nat) < 1 \<and> (1::nat) < length [1::nat, 2]"
proof -
  have d: "map fst (filter snd (started (sem_final
       [Acquire 0, Acquire 1, Acquire 2, Settle 0 True, Settle 1 False] (new_Semaphore 1)))) = [1, 2]"
    by (simp add: new_Semaphore_def acquire_def execute_enter_def execute_finally_def Let_def)
  have w: "waited (sem_final
       [Acquire 0, Acquire 1, Acquire 2, Settle 0 True, Settle 1 False] (new_Semaphore 1)) = [1, 2]"
    by (simp add: new_Semaphore_def acquire_def execute_enter_def execute_finally_def Let_def)
  from semaphore_fifo [OF refl d [symmetric]] d w show ?thesis
    by simp
qed

section \<open>BrowserPool: size of the pool\<close>

text \<open>
  C8. The code tries to keep the bound and misses it when calls overlap: \<^verbatim>\<open>getContext\<close>
  compares \<^verbatim>\<open>this.contextPool.length\<close> with \<^verbatim>\<open>this.maxPoolSize\<close> before the \<^verbatim>\<open>await\<close> of
  \<^verbatim>\<open>browser.newContext\<close>, and \<^verbatim>\<open>createContext\<close> adds the context to the pool after it.
  On a pool with \<^verbatim>\<open>maxConcurrency = 2\<close> that \<^verbatim>\<open>initialize\<close> has filled with one context,
  three calls of \<^verbatim>\<open>getContext\<close> are made before any of them goes on. The first takes
  the free context; the second and the third each find no free context and a pool of
  size 1, and each starts \<^verbatim>\<open>createContext\<close>. All three calls return a context, and the
  pool holds 3 contexts, all of them in use, with \<open>maxPoolSize = 2\<close>: the claim, that the
  size of the pool never exceeds \<open>maxPoolSize\<close>, is right about what the code is meant to
  do and wrong about what it does.
\<close>

theorem overlapping_getContext_exceeds_maxPoolSize:
  "maxPoolSize (pool (overlapping_run 4)) = 2 \<and>
   getPoolSize (pool (overlapping_run 4)) = 1 \<and>
   calls (overlapping_run 4) 0 = Some (Settled (Inr None)) \<and>
   getPoolSize (pool (overlapping_run 10)) = 1 \<and>
   calls (overlapping_run 10) 1 = Some (Settled (Inr (Some 0))) \<and>
   calls (overlapping_run 10) 2 = Some (Suspended (At_newContext To_getContext)) \<and>
   calls (overlapping_run 10) 3 = Some (Suspended (At_newContext To_getContext)) \<and>
   length overlapping_getContext = 14 \<and>
   maxPoolSize (pool (overlapping_run 14)) = 2 \<and>
   getPoolSize (pool (overlapping_run 14)) = 3 \<and>
   map browserContext (contextPool (pool (overlapping_run 14))) = [0, 1, 2] \<and>
   map inUse (contextPool (pool (overlapping_run 14))) = [True, True, True] \<and>
   calls (overlapping_run 14) 1 = Some (Settled (Inr (Some 0))) \<and>
   calls (overlapping_run 14) 2 = Some (Settled (Inr (Some 1))) \<and>
   calls (overlapping_run 14) 3 = Some (Settled (Inr (Some 2)))"
proof -
  note defs = overlapping_run_def overlapping_getContext_def new_pool_run_def new_BrowserPool_def
    defaults_def or_default_def run_createContext_def markInUse_def getPoolSize_def Let_def
  have initialized:
    "maxPoolSize (pool (overlapping_run 4)) = 2 \<and>
     getPoolSize (pool (overlapping_run 4)) = 1 \<and>
     calls (overlapping_run 4) 0 = Some (Settled (Inr None))"
    by (simp add: defs)
  have tested:
    "getPoolSize (pool (overlapping_run 10)) = 1 \<and>
     calls (overlapping_run 10) 1 = Some (Settled (Inr (Some 0))) \<and>
     calls (overlapping_run 10) 2 = Some (Suspended (At_newContext To_getContext)) \<and>
     calls (overlapping_run 10) 3 = Some (Suspended (At_newContext To_getContext))"
    by (simp add: defs)
  have len: "length overlapping_getContext = 14"
    by (simp add: overlapping_getContext_def)
  have settled:
    "maxPoolSize (pool (overlapping_run 14)) = 2 \<and>
     getPoolSize (pool (overlapping_run 14)) = 3 \<and>
     map browserContext (contextPool (pool (overlapping_run 14))) = [0, 1, 2] \<and>
     map inUse (contextPool (pool (overlapping_run 14))) = [True, True, True] \<and>
     calls (overlapping_run 14) 1 = Some (Settled (Inr (Some 0))) \<and>
     calls (overlapping_run 14) 2 = Some (Settled (Inr (Some 1))) \<and>
     calls (overlapping_run 14) 3 = Some (Settled (Inr (Some 2)))"
    by (simp add: defs)
  from initialized tested len settled show ?thesis
    by blast
qed

section \<open>One attempt: a file that exists\<close>

text \<open>
  C9. When \<^verbatim>\<open>fs.imageExists\<close> reports the file as existing, with its path and size, the
  single attempt returns \<open>success = true\<close>, \<open>skipped = true\<close> with that size and path, and
  the only call it makes to the outside is \<^verbatim>\<open>fs.imageExists\<close>: no page is opened and the
  image resource is not fetched.
\<close>

theorem attempt_skips_existing_file:
  assumes "fs_imageExists env = Inr existingFile"
    and "exists existingFile"
    and "ImageExistsResult.filepath existingFile = Some fp"
    and "ImageExistsResult.fsize existingFile = Some n"
  shows "\<exists>r. attemptDownloadWithContext config env context pid imageData attempt
               = ([Attempt attempt, ImageExists pid], Inr r) \<and>
             success r \<and> skipped r = Some True \<and> photoId r = pid \<and>
             DownloadResult.fsize r = Some n \<and> DownloadResult.filepath r = Some fp \<and>
             filter is_fetch
               (fst (attemptDownloadWithContext config env context pid imageData attempt)) = []"
  using assms
  by (simp add: attemptDownloadWithContext_def skipped_result_def result_of_def is_fetch_def)

theorem attempt_skips_existing_file_witness:
  "fs_imageExists env_existing =
     Inr \<lparr>exists = True, ImageExistsResult.filepath = Some ''/downloads/user/abc.jpg'',
             ImageExistsResult.fsize = Some 2048\<rparr> \<and>
   attemptDownloadWithContext defaults env_existing 0 ''user/abc'' no_imageData 1 =
     ([Attempt 1, ImageExists ''user/abc''],
      Inr ((result_of True ''user/abc'')
             \<lparr>filepath := Some ''/downloads/user/abc.jpg'', filename := Some ''abc.jpg'',
              fsize := Some 2048, skipped := Some True, author := Some []\<rparr>))"
proof -
  have e: "fs_imageExists env_existing =
     Inr \<lparr>exists = True, ImageExistsResult.filepath = Some ''/downloads/user/abc.jpg'',
             ImageExistsResult.fsize = Some 2048\<rparr>"
    by (simp add: env_existing_def)
  from attempt_skips_existing_file [OF e, of "''/downloads/user/abc.jpg''" 2048 defaults 0
      "''user/abc''" no_imageData 1]
  obtain r where "attemptDownloadWithContext defaults env_existing 0 ''user/abc'' no_imageData 1
               = ([Attempt 1, ImageExists ''user/abc''], Inr r)"
    by auto
  moreover have "snd (attemptDownloadWithContext defaults env_existing 0 ''user/abc'' no_imageData 1)
     = Inr ((result_of True ''user/abc'')
             \<lparr>filepath := Some ''/downloads/user/abc.jpg'', filename := Some ''abc.jpg'',
              fsize := Some 2048, skipped := Some True, author := Some []\<rparr>)"
    by (simp add: attemptDownloadWithContext_def env_existing_def skipped_result_def basename_def
        no_imageData_def or_string_def)
  ultimately show ?thesis
    using e by simp
qed

text \<open>
  C5 on the code. The attempt of the concurrent service returns for an existing file
  without extracting metadata: it makes no call to \<^verbatim>\<open>extractVscoImageMetadata\<close> and its
  result has no upload date, although the page would give one. The attempt of the
  sequential service (\<^verbatim>\<open>DownloadService.attemptDownload\<close>) on the same input does extract
  and returns the upload date.
\<close>

theorem skipped_attempt_without_metadata:
  "filter is_extraction
     (fst (attemptDownloadWithContext defaults env_existing 0 ''user/abc'' no_imageData 1)) = [] \<and>
   map_sum id uploadDate
     (snd (attemptDownloadWithContext defaults env_existing 0 ''user/abc'' no_imageData 1))
     = Inr None \<and>
   filter is_extraction
     (fst (DownloadService_attemptDownload defaults env_existing ''user/abc'' no_imageData 1))
     = [ExtractMetadata ''https://vsco.co/user/media/abc''] \<and>
   map_sum id uploadDate
     (snd (DownloadService_attemptDownload defaults env_existing ''user/abc'' no_imageData 1))
     = Inr (Some ''2024-05-01'')"
  by (simp add: attemptDownloadWithContext_def DownloadService_attemptDownload_def
      DownloadService_extractVscoImageMetadata_def extractVscoImageMetadata_def
      env_existing_def skipped_result_def result_of_def no_imageData_def vscoImageUrl_def
      or_string_def truthy_string_def truthy_int_def is_extraction_def Let_def)

section \<open>Retrying\<close>

lemma downloadFromDirectUrl_trace:
  "fst (downloadFromDirectUrl env url pid imageData m) = [FetchImage url] \<or>
   fst (downloadFromDirectUrl env url pid imageData m) = [FetchImage url, SaveImageFile pid]"
  by (simp add: downloadFromDirectUrl_def Let_def split: sum.splits option.splits)

lemma downloadFromDirectUrl_photoId:
  "snd (downloadFromDirectUrl env url pid imageData m) = Inr r \<Longrightarrow> photoId r = pid"
  by (auto simp: downloadFromDirectUrl_def Let_def result_of_def
      split: sum.splits option.splits if_splits)

lemma attempt_trace_cases:
  "fst (attemptDownloadWithContext config env c pid imageData a) = [Attempt a, ImageExists pid] \<or>
   fst (attemptDownloadWithContext config env c pid imageData a)
     = [Attempt a, ImageExists pid, NewPage c] \<or>
   (\<exists>tr. fst (attemptDownloadWithContext config env c pid imageData a)
           = [Attempt a, ImageExists pid, NewPage c,
              ExtractMetadata (vscoImageUrl pid imageData)] @ tr @ [ClosePage] \<and>
         (tr = [] \<or> (\<exists>url. tr = [FetchImage url] \<or> tr = [FetchImage url, SaveImageFile pid])))"
proof -
  let ?u = "vscoImageUrl pid imageData"
  have ex: "fst (extractVscoImageMetadata env ?u) = [ExtractMetadata ?u]"
    by (simp add: extractVscoImageMetadata_def)
  obtain t1 x where e: "extractVscoImageMetadata env ?u = (t1, x)"
    by (cases "extractVscoImageMetadata env ?u")
  with ex have t1: "t1 = [ExtractMetadata ?u]" by simp
  show ?thesis
  proof (cases x)
    case (Inl err)
    with e t1 show ?thesis
      by (simp add: attemptDownloadWithContext_def split: sum.splits option.splits)
  next
    case (Inr m)
    obtain t2 y where d: "downloadFromDirectUrl env (directImageUrl m) pid imageData m = (t2, y)"
      by (cases "downloadFromDirectUrl env (directImageUrl m) pid imageData m")
    with downloadFromDirectUrl_trace [of env "directImageUrl m" pid imageData m]
    have "t2 = [FetchImage (directImageUrl m)] \<or> t2 = [FetchImage (directImageUrl m), SaveImageFile pid]"
      by simp
    with e t1 Inr d show ?thesis
      by (auto simp: attemptDownloadWithContext_def split: sum.splits option.splits)
  qed
qed

lemma attempt_marks_entry:
  "filter is_attempt (fst (attemptDownloadWithContext config env c pid imageData a)) = [Attempt a]"
  using attempt_trace_cases [of config env c pid imageData a]
  by (auto simp: is_attempt_def)

lemma attempt_never_releases:
  "filter is_release (fst (attemptDownloadWithContext config env c pid imageData a)) = []"
  using attempt_trace_cases [of config env c pid imageData a]
  by (auto simp: is_release_def)

lemma attempt_photoId:
  assumes "snd (attemptDownloadWithContext config env c pid imageData a) = Inr r"
  shows "photoId r = pid"
proof -
  let ?u = "vscoImageUrl pid imageData"
  obtain t1 x where e: "extractVscoImageMetadata env ?u = (t1, x)"
    by (cases "extractVscoImageMetadata env ?u")
  have skip: "skipped_result pid imageData f = Inr r \<Longrightarrow> photoId r = pid" for f
    by (auto simp: skipped_result_def result_of_def split: option.splits)
  have dry: "photoId (dryRun_result pid imageData) = pid"
    by (simp add: dryRun_result_def result_of_def)
  show ?thesis
  proof (cases x)
    case (Inl err)
    with e assms skip dry show ?thesis
      by (auto simp: attemptDownloadWithContext_def split: sum.splits option.splits if_splits)
  next
    case (Inr m)
    obtain t2 y where d: "downloadFromDirectUrl env (directImageUrl m) pid imageData m = (t2, y)"
      by (cases "downloadFromDirectUrl env (directImageUrl m) pid imageData m")
    then have "y = Inr r \<Longrightarrow> photoId r = pid"
      using downloadFromDirectUrl_photoId [of env "directImageUrl m" pid imageData m r] by simp
    with e Inr d assms skip dry show ?thesis
      by (auto simp: attemptDownloadWithContext_def split: sum.splits option.splits if_splits)
  qed
qed

lemma retryLoop_success:
  assumes "a \<le> n" and "att a = (tr, Inr r)"
  shows "retryLoop att pid imageData n a l = (tr, r)"
  using assms by (subst retryLoop.simps) simp

lemma retryLoop_exhausted:
  assumes "att n = (tr, Inl e)"
  shows "retryLoop att pid imageData n n l
           = (tr, failed_result pid (lastErrorMessage (Some e)) imageData)"
proof -
  have "retryLoop att pid imageData n (n + 1) (Some e)
          = ([], failed_result pid (lastErrorMessage (Some e)) imageData)"
    by (subst retryLoop.simps) simp
  with assms show ?thesis
    by (subst retryLoop.simps) simp
qed

lemma retryLoop_failures_first:
  assumes "a \<le> k" and "k \<le> n"
    and "\<forall>j. a \<le> j \<and> j < k \<longrightarrow> (\<exists>e. snd (att j) = Inl e)"
    and "\<forall>l. retryLoop att pid imageData n k l = (trk, res)"
  shows "retryLoop att pid imageData n a l
           = (concat (map (\<lambda>j. fst (att j) @ [Sleep (2 ^ nat j * 1000)]) [a..k - 1]) @ trk, res)"
  using assms(1,3)
proof (induction "nat (k - a)" arbitrary: a l)
  case 0
  then have "a = k" by simp
  with assms(4) show ?case by simp
next
  case (Suc d)
  from Suc.hyps(2) have lt: "a < k" by simp
  with Suc.prems(2) obtain e where "snd (att a) = Inl e" by auto
  then have att_a: "att a = (fst (att a), Inl e)"
    by (metis prod.collapse)
  from Suc.hyps(2) have d: "d = nat (k - (a + 1))" by simp
  from lt have le: "a + 1 \<le> k" by simp
  from Suc.prems(2) have rest: "\<forall>j. a + 1 \<le> j \<and> j < k \<longrightarrow> (\<exists>e. snd (att j) = Inl e)"
    by simp
  have ih: "retryLoop att pid imageData n (a + 1) (Some e)
              = (concat (map (\<lambda>j. fst (att j) @ [Sleep (2 ^ nat j * 1000)]) [a + 1..k - 1]) @ trk, res)"
    using d le rest by (rule Suc.hyps(1))
  from lt have range: "[a..k - 1] = a # [a + 1..k - 1]"
    by (simp add: upto_rec1)
  from lt assms(2) have "a \<le> n" and "a < n" by simp_all
  then have "retryLoop att pid imageData n a l
               = (fst (att a) @ [Sleep (2 ^ nat a * 1000)] @
                    concat (map (\<lambda>j. fst (att j) @ [Sleep (2 ^ nat j * 1000)]) [a + 1..k - 1]) @ trk,
                  res)"
    by (subst retryLoop.simps, subst att_a) (simp add: ih)
  with range show ?case by simp
qed


lemma retryLoop_never_releases:
  assumes "\<And>a. filter is_release (fst (att a)) = []"
  shows "filter is_release (fst (retryLoop att pid imageData n a l)) = []"
  using assms
proof (induction att pid imageData n a l rule: retryLoop.induct)
  case (1 att pid imageData retries attempt lastError)
  show ?case
  proof (cases "attempt \<le> retries")
    case False
    then show ?thesis by (subst retryLoop.simps) simp
  next
    case True
    show ?thesis
    proof (cases "snd (att attempt)")
      case (Inr r)
      then have "att attempt = (fst (att attempt), Inr r)" by (metis prod.collapse)
      with True have "retryLoop att pid imageData retries attempt lastError = (fst (att attempt), r)"
        by (rule retryLoop_success)
      with "1.prems" show ?thesis by simp
    next
      case (Inl e)
      then have att_a: "att attempt = (fst (att attempt), Inl e)" by (metis prod.collapse)
      from True att_a "1.prems"
      have ih: "filter is_release
                  (fst (retryLoop att pid imageData retries (attempt + 1) (Some e))) = []"
        by (intro "1.IH"[of "fst (att attempt)" "Inl e" e]) auto
      have sleep: "\<not> is_release (Sleep ms)" for ms
        by (simp add: is_release_def)
      from True "1.prems" ih show ?thesis
        by (subst retryLoop.simps, subst att_a)
          (auto simp: sleep Let_def split: prod.splits)
    qed
  qed
qed

lemma retryLoop_photoId:
  assumes "\<And>a r. snd (att a) = Inr r \<Longrightarrow> photoId r = pid"
  shows "photoId (snd (retryLoop att pid imageData n a l)) = pid"
  using assms
proof (induction att pid imageData n a l rule: retryLoop.induct)
  case (1 att pid imageData retries attempt lastError)
  show ?case
  proof (cases "attempt \<le> retries")
    case False
    then show ?thesis
      by (subst retryLoop.simps) (simp add: failed_result_def result_of_def)
  next
    case True
    show ?thesis
    proof (cases "snd (att attempt)")
      case (Inr r)
      then have "att attempt = (fst (att attempt), Inr r)" by (metis prod.collapse)
      with True have "retryLoop att pid imageData retries attempt lastError = (fst (att attempt), r)"
        by (rule retryLoop_success)
      with "1.prems" Inr show ?thesis by simp
    next
      case (Inl e)
      then have att_a: "att attempt = (fst (att attempt), Inl e)" by (metis prod.collapse)
      from True att_a "1.prems"
      have ih: "photoId (snd (retryLoop att pid imageData retries (attempt + 1) (Some e))) = pid"
        by (intro "1.IH"[of "fst (att attempt)" "Inl e" e]) auto
      from True ih show ?thesis
        by (subst retryLoop.simps, subst att_a) (auto simp: Let_def split: prod.splits)
    qed
  qed
qed

lemma attempts_of_failures:
  assumes "\<And>j. filter is_attempt (fst (att j)) = [Attempt j]"
  shows "filter is_attempt (concat (map (\<lambda>j. fst (att j) @ [Sleep (2 ^ nat j * 1000)]) js))
           = map Attempt js"
  using assms by (induction js) (simp_all add: is_attempt_def)

lemma upto_snoc: "(1::int) \<le> k \<Longrightarrow> [1..k - 1] @ [k] = [1..k]"
  using upto_rec2 [of 1 k] by simp

text \<open>
  C4, as the claim states it, fails in one case: the result does not carry the message of
  the last error when that message is empty. With \<^verbatim>\<open>retries = 1\<close> and an attempt that throws
  an \<^verbatim>\<open>Error\<close> whose message is the empty string, the result carries the text
  \<^verbatim>\<open>Unknown error after all retries\<close>.
\<close>

theorem retry_message_counterexample:
  "snd (attemptDownloadWithContext (defaults\<lparr>cfg_retries := Some 1\<rparr>) (env_failing []) 0
          ''user/abc'' no_imageData 1) = Inl (Error []) \<and>
   error (snd (downloadImageWithContext (defaults\<lparr>cfg_retries := Some 1\<rparr>)
                 (same_env (env_failing [])) 0 ''user/abc'' no_imageData))
     = Some ''Unknown error after all retries'' \<and>
   error (snd (downloadImageWithContext (defaults\<lparr>cfg_retries := Some 1\<rparr>)
                 (same_env (env_failing [])) 0 ''user/abc'' no_imageData))
     \<noteq> Some (message (Error []))"
  by (simp add: downloadImageWithContext_def retryLoop.simps attemptDownloadWithContext_def
      same_env_def env_failing_def env_existing_def defaults_def or_default_def
      failed_result_def result_of_def lastErrorMessage_def)

text \<open>
  C4, amended. With \<open>retries\<close> the value of \<^verbatim>\<open>this.config.get("retries") || 3\<close>,
  \<^verbatim>\<open>downloadImageWithContext\<close> calls the single attempt for \<open>attempt = 1, 2, \<dots>\<close>; when the
  attempts before the \<open>k\<close>-th throw (\<open>1 \<le> k \<le> retries\<close>), it sleeps \<open>2^attempt * 1000\<close> ms
  after each of them, and
  \<^item> if the \<open>k\<close>-th attempt returns, its result is returned at once, after exactly \<open>k\<close>
    attempts;
  \<^item> if \<open>k = retries\<close> and the \<open>k\<close>-th attempt throws too, the call returns (it does not
    throw) a result with \<open>success = false\<close>, after exactly \<open>retries\<close> attempts and no sleep
    after the last one; the result carries the message of the last error when that message
    is not empty, and the text \<^verbatim>\<open>Unknown error after all retries\<close> when the last thrown
    value has an empty message or none.
\<close>

theorem download_retries_with_backoff:
  assumes "att = (\<lambda>a. attemptDownloadWithContext config (envs a) c pid imageData a)"
    and "retries = or_default (cfg_retries config) 3"
    and "1 \<le> k" and "k \<le> retries"
    and "\<forall>j. 1 \<le> j \<and> j < k \<longrightarrow> (\<exists>e. snd (att j) = Inl e)"
  shows "(\<forall>r. snd (att k) = Inr r \<longrightarrow>
            downloadImageWithContext config envs c pid imageData
              = (concat (map (\<lambda>j. fst (att j) @ [Sleep (2 ^ nat j * 1000)]) [1..k - 1]) @ fst (att k),
                 r) \<and>
            filter is_attempt (fst (downloadImageWithContext config envs c pid imageData))
              = map Attempt [1..k]) \<and>
         (\<forall>e. snd (att k) = Inl e \<and> k = retries \<longrightarrow>
            downloadImageWithContext config envs c pid imageData
              = (concat (map (\<lambda>j. fst (att j) @ [Sleep (2 ^ nat j * 1000)]) [1..retries - 1])
                   @ fst (att retries),
                 failed_result pid
                   (case e of
                      Error m \<Rightarrow> if m = [] then ''Unknown error after all retries'' else m
                    | NonError \<Rightarrow> ''Unknown error after all retries'')
                   imageData) \<and>
            \<not> success (snd (downloadImageWithContext config envs c pid imageData)) \<and>
            filter is_attempt (fst (downloadImageWithContext config envs c pid imageData))
              = map Attempt [1..retries])"
proof -
  have marks: "filter is_attempt (fst (att j)) = [Attempt j]" for j
    unfolding assms(1) by (rule attempt_marks_entry)
  have run: "downloadImageWithContext config envs c pid imageData
               = retryLoop att pid imageData retries 1 None"
    by (simp add: downloadImageWithContext_def assms(1,2))
  have attempts: "filter is_attempt
                    (concat (map (\<lambda>j. fst (att j) @ [Sleep (2 ^ nat j * 1000)]) [1..k - 1]) @ fst (att k))
                  = map Attempt [1..k]"
    using attempts_of_failures [of att "[1..k - 1]"] marks upto_snoc [OF assms(3)]
    by (metis (no_types, lifting) filter_append list.simps(8,9) map_append)
  have ok: "downloadImageWithContext config envs c pid imageData
              = (concat (map (\<lambda>j. fst (att j) @ [Sleep (2 ^ nat j * 1000)]) [1..k - 1]) @ fst (att k), r)"
    if "snd (att k) = Inr r" for r
  proof -
    from that have "att k = (fst (att k), Inr r)" by (metis prod.collapse)
    with assms(4) have "\<forall>l. retryLoop att pid imageData retries k l = (fst (att k), r)"
      by (simp add: retryLoop_success)
    with assms(3,4,5) show ?thesis
      unfolding run by (intro retryLoop_failures_first) simp_all
  qed
  have bad: "downloadImageWithContext config envs c pid imageData
              = (concat (map (\<lambda>j. fst (att j) @ [Sleep (2 ^ nat j * 1000)]) [1..k - 1]) @ fst (att k),
                 failed_result pid (lastErrorMessage (Some e)) imageData)"
    if "snd (att k) = Inl e" and "k = retries" for e
  proof -
    from that have "att retries = (fst (att retries), Inl e)" by (metis prod.collapse)
    then have "\<forall>l. retryLoop att pid imageData retries retries l
                 = (fst (att retries), failed_result pid (lastErrorMessage (Some e)) imageData)"
      by (simp add: retryLoop_exhausted)
    with assms(3,4,5) that(2) show ?thesis
      unfolding run by (intro retryLoop_failures_first) simp_all
  qed
  have msg: "lastErrorMessage (Some e)
               = (case e of
                    Error m \<Rightarrow> if m = [] then ''Unknown error after all retries'' else m
                  | NonError \<Rightarrow> ''Unknown error after all retries'')" for e
    by (simp add: lastErrorMessage_def split: thrown.splits)
  show ?thesis
  proof (intro conjI allI impI)
    fix r assume "snd (att k) = Inr r"
    then show "downloadImageWithContext config envs c pid imageData
              = (concat (map (\<lambda>j. fst (att j) @ [Sleep (2 ^ nat j * 1000)]) [1..k - 1]) @ fst (att k), r)"
      by (rule ok)
    then show "filter is_attempt (fst (downloadImageWithContext config envs c pid imageData))
              = map Attempt [1..k]"
      using attempts by simp
  next
    fix e assume a: "snd (att k) = Inl e \<and> k = retries"
    with bad [of e] have b: "downloadImageWithContext config envs c pid imageData
              = (concat (map (\<lambda>j. fst (att j) @ [Sleep (2 ^ nat j * 1000)]) [1..k - 1]) @ fst (att k),
                 failed_result pid (lastErrorMessage (Some e)) imageData)"
      by auto
    with a show "downloadImageWithContext config envs c pid imageData
              = (concat (map (\<lambda>j. fst (att j) @ [Sleep (2 ^ nat j * 1000)]) [1..retries - 1])
                   @ fst (att retries),
                 failed_result pid
                   (case e of
                      Error m \<Rightarrow> if m = [] then ''Unknown error after all retries'' else m
                    | NonError \<Rightarrow> ''Unknown error after all retries'')
                   imageData)"
      by (simp add: msg)
    from b show "\<not> success (snd (downloadImageWithContext config envs c pid imageData))"
      by (simp add: failed_result_def result_of_def)
    from b a attempts
    show "filter is_attempt (fst (downloadImageWithContext config envs c pid imageData))
              = map Attempt [1..retries]"
      by simp
  qed
qed

theorem download_retries_with_backoff_witness:
  "(1::int) \<le> 3 \<and> 3 \<le> or_default (cfg_retries defaults) 3 \<and>
   downloadImageWithContext defaults (same_env (env_failing ''net down'')) 0 ''user/abc'' no_imageData
     = ([Attempt 1, ImageExists ''user/abc'', Sleep 2000,
         Attempt 2, ImageExists ''user/abc'', Sleep 4000,
         Attempt 3, ImageExists ''user/abc''],
        failed_result ''user/abc'' ''net down'' no_imageData)"
proof -
  let ?att = "\<lambda>a. attemptDownloadWithContext defaults (same_env (env_failing ''net down'') a) 0
                    ''user/abc'' no_imageData a"
  have att: "?att j = ([Attempt j, ImageExists ''user/abc''], Inl (Error ''net down''))" for j
    by (simp add: attemptDownloadWithContext_def same_env_def env_failing_def)
  have r: "or_default (cfg_retries defaults) 3 = 3"
    by (simp add: defaults_def or_default_def)
  have range: "[1..(2::int)] = [1, 2]"
    by (simp add: upto.simps)
  have h3: "(1::int) \<le> 3" and h4: "3 \<le> or_default (cfg_retries defaults) 3"
    by (simp_all add: r)
  have h5: "\<forall>j. 1 \<le> j \<and> j < 3 \<longrightarrow> (\<exists>e. snd (?att j) = Inl e)"
    by (simp add: att)
  from download_retries_with_backoff [OF refl refl h3 h4 h5] att r range h3 h4
  show ?thesis
    by simp
qed

section \<open>The task of one item\<close>

lemma download_never_releases:
  "filter is_release (fst (downloadImageWithContext config envs c pid imageData)) = []"
  unfolding downloadImageWithContext_def
  by (rule retryLoop_never_releases) (rule attempt_never_releases)

lemma download_photoId:
  "photoId (snd (downloadImageWithContext config envs c pid imageData)) = pid"
  unfolding downloadImageWithContext_def
  by (rule retryLoop_photoId) (rule attempt_photoId)

lemma downloadSingleImage_with_context:
  assumes "getContext (clock w) (pool_found w) = (p1, Inr c)"
  shows "downloadSingleImage config w (pid, imageData) i n
           = (releaseContext (clock w) c p1,
              ([AcquireContext] @ fst (downloadImageWithContext config (attempt_envs w) c pid imageData) @
               [if success (snd (downloadImageWithContext config (attempt_envs w) c pid imageData)) \<and>
                   skipped (snd (downloadImageWithContext config (attempt_envs w) c pid imageData))
                     \<noteq> Some True
                then IncrementDownloaded
                else if skipped (snd (downloadImageWithContext config (attempt_envs w) c pid imageData))
                          = Some True
                then IncrementSkipped else IncrementFailed]) @ [ReleaseContextOf c],
              Inr (snd (downloadImageWithContext config (attempt_envs w) c pid imageData)))"
  using assms
  by (simp add: downloadSingleImage_def downloadSingleImage_try_def Let_def split: prod.splits)

lemma downloadSingleImage_without_context:
  assumes "getContext (clock w) (pool_found w) = (p1, Inl e)"
  shows "downloadSingleImage config w (pid, imageData) i n
           = (p1, [AcquireContext, IncrementFailed],
              Inr (failed_result pid (errorMessage e) imageData))"
  using assms
  by (simp add: downloadSingleImage_def downloadSingleImage_try_def Let_def)

lemma downloadSingleImage_settles:
  "\<exists>r. snd (snd (downloadSingleImage config w entry i n)) = Inr r \<and> photoId r = fst entry"
proof -
  obtain pid imageData where entry: "entry = (pid, imageData)"
    by (cases entry)
  obtain p1 got where g: "getContext (clock w) (pool_found w) = (p1, got)"
    by (cases "getContext (clock w) (pool_found w)")
  show ?thesis
  proof (cases got)
    case (Inl e)
    with g entry show ?thesis
      by (simp add: downloadSingleImage_without_context failed_result_def result_of_def)
  next
    case (Inr c)
    with g entry show ?thesis
      by (simp add: downloadSingleImage_with_context download_photoId)
  qed
qed

lemma task_result_photoId: "photoId (task_result config w entry i n) = fst entry"
  using downloadSingleImage_settles [of config w entry i n]
  by (auto simp: task_result_def)




text \<open>
  C6. Whenever \<^verbatim>\<open>getContext()\<close> returns a context \<open>c\<close> to the task of an item, the task
  calls \<^verbatim>\<open>releaseContext\<close> on \<open>c\<close> exactly once, as the last thing it does before its result
  is produced, whatever the attempts do (return, skip or throw) and however the result is
  counted; the task settles with a result and the pool is the one \<^verbatim>\<open>releaseContext\<close>
  leaves.
\<close>

theorem context_released_exactly_once:
  assumes "getContext (clock w) (pool_found w) = (p1, Inr c)"
  shows "\<exists>tr r. downloadSingleImage config w entry currentIndex totalCount
                  = (releaseContext (clock w) c p1, tr @ [ReleaseContextOf c], Inr r) \<and>
                filter is_release tr = [] \<and>
                filter is_release
                  (fst (snd (downloadSingleImage config w entry currentIndex totalCount)))
                  = [ReleaseContextOf c]"
proof -
  obtain pid imageData where entry: "entry = (pid, imageData)"
    by (cases entry)
  have quiet: "\<not> is_release AcquireContext" "\<not> is_release IncrementDownloaded"
    "\<not> is_release IncrementSkipped" "\<not> is_release IncrementFailed"
    by (simp_all add: is_release_def)
  have rel: "is_release (ReleaseContextOf c)"
    by (simp add: is_release_def)
  show ?thesis
    unfolding entry downloadSingleImage_with_context [OF assms]
    by (intro exI conjI, rule refl) (simp_all add: download_never_releases quiet rel)
qed

theorem context_released_exactly_once_witness:
  "snd (getContext (clock world_ready) (pool_found world_ready)) = Inr 0 \<and>
   filter is_release
     (fst (snd (downloadSingleImage defaults world_ready (''user/abc'', no_imageData) 1 1)))
     = [ReleaseContextOf 0]"
proof -
  have g: "snd (getContext (clock world_ready) (pool_found world_ready)) = Inr 0"
    by (simp add: world_ready_def initialize_def createContext_def new_BrowserPool_def
        defaults_def or_default_def getContext_def cleanupStaleContexts_def markInUse_def Let_def)
  then have "getContext (clock world_ready) (pool_found world_ready)
               = (fst (getContext (clock world_ready) (pool_found world_ready)), Inr 0)"
    by (metis prod.collapse)
  from context_released_exactly_once [OF this, where config = defaults
      and entry = "(''user/abc'', no_imageData)" and currentIndex = 1 and totalCount = 1] g
  show ?thesis
    by auto
qed

section \<open>A batch\<close>

lemma set_take1_tl: "set (take 1 xs) \<union> set (tl xs) = set xs"
  by (cases xs) auto

lemma settle_all_fulfilled:
  assumes "\<forall>t. \<exists>r. task t = Inr r" and "holders s = [] \<longrightarrow> queue s = []"
  shows "\<exists>vals'. settle_all task sched s vals = Some (Inr vals') \<and>
                 (\<forall>i. vals' i = (if i \<in> set (holders s) \<union> set (queue s)
                                  then Some (projr (task i)) else vals i))"
  using assms
proof (induction task sched s vals rule: settle_all.induct)
  case (1 task sched s vals)
  show ?case
  proof (cases "holders s = []")
    case True
    with "1.prems"(2) show ?thesis
      by (subst settle_all.simps) simp
  next
    case False
    define t where "t = holders s ! ((case sched of [] \<Rightarrow> 0 | c # _ \<Rightarrow> c) mod length (holders s))"
    from False have mem: "t \<in> set (holders s)"
      unfolding t_def by (intro nth_mem mod_less_divisor) simp
    from "1.prems"(1) obtain r where r: "task t = Inr r"
      by blast
    let ?s' = "last (execute_finally t True s)"
    have slots: "holders ?s' = remove1 t (holders s) @ take 1 (queue s)" "queue ?s' = tl (queue s)"
      by (simp_all add: execute_finally_slots)
    have live: "holders ?s' = [] \<longrightarrow> queue ?s' = []"
      unfolding slots by (cases "queue s") simp_all
    from "1.IH" [OF False t_def r "1.prems"(1) live]
    obtain vals' where res: "settle_all task (tl sched) ?s' (vals(t \<mapsto> r)) = Some (Inr vals')"
      and vals': "\<And>i. vals' i = (if i \<in> set (holders ?s') \<union> set (queue ?s')
                                   then Some (projr (task i)) else (vals(t \<mapsto> r)) i)"
      by blast
    have members: "set (holders ?s') \<union> set (queue ?s') = set (remove1 t (holders s)) \<union> set (queue s)"
      unfolding slots using set_take1_tl [of "queue s"] by auto
    have "vals' i = (if i \<in> set (holders s) \<union> set (queue s)
                     then Some (projr (task i)) else vals i)" for i
    proof (cases "i = t")
      case True
      with mem r vals' [of i] show ?thesis by simp
    next
      case False
      then have "i \<in> set (remove1 t (holders s)) \<longleftrightarrow> i \<in> set (holders s)"
        by (rule in_set_remove1)
      with False vals' [of i] members show ?thesis by simp
    qed
    moreover have "settle_all task sched s vals = Some (Inr vals')"
      using False r res by (subst settle_all.simps) (simp add: t_def [symmetric] Let_def)
    ultimately show ?thesis by blast
  qed
qed

lemma acquire_members:
  "set (holders (acquire t s)) \<union> set (queue (acquire t s)) = insert t (set (holders s) \<union> set (queue s))"
  by (simp add: acquire_def execute_enter_def)

lemma fold_acquire_members:
  "set (holders (fold acquire ts s)) \<union> set (queue (fold acquire ts s))
     = set ts \<union> set (holders s) \<union> set (queue s)"
proof (induction ts arbitrary: s)
  case Nil
  show ?case by simp
next
  case (Cons t ts)
  show ?case
    using Cons.IH [of "acquire t s"] acquire_members [of t s] by auto
qed

lemma fold_acquire_inv: "sem_inv k s \<Longrightarrow> sem_inv k (fold acquire ts s)"
  by (induction ts arbitrary: s) (simp_all add: sem_inv_acquire)

lemma acquire_holders_nonempty:
  assumes "sem_inv k s" and "1 \<le> k"
  shows "holders (acquire t s) \<noteq> []"
proof (cases "currentCount s < maxConcurrent s")
  case True
  then show ?thesis by (simp add: acquire_def execute_enter_def)
next
  case False
  with assms have "1 \<le> int (length (holders s))"
    unfolding sem_inv_def by linarith
  then have "holders s \<noteq> []"
    by auto
  with False show ?thesis by (simp add: acquire_def)
qed

lemma fold_acquire_live:
  assumes "sem_inv k s" and "1 \<le> k" and "holders s = [] \<longrightarrow> queue s = []"
  shows "holders (fold acquire ts s) = [] \<longrightarrow> queue (fold acquire ts s) = []"
  using assms
proof (induction ts arbitrary: s)
  case Nil
  then show ?case by simp
next
  case (Cons t ts)
  from Cons.prems(1,2) have "holders (acquire t s) \<noteq> []"
    by (rule acquire_holders_nonempty)
  moreover from Cons.prems(1) have "sem_inv k (acquire t s)"
    by (rule sem_inv_acquire)
  ultimately show ?case
    using Cons.IH [of "acquire t s"] Cons.prems(2) by simp
qed

lemma processBatch_results:
  assumes "0 < or_default (cfg_maxConcurrency config) 3"
  shows "processBatch config worlds sched batch startIndex endIndex
           = Some (Inr (map (\<lambda>i. task_result config (worlds i) (batch ! i)
                                   (startIndex + int i + 1) endIndex)
                          [0..<length batch]))"
proof -
  let ?k = "min (int (length batch)) (or_default (cfg_maxConcurrency config) 3)"
  let ?s = "fold acquire [0..<length batch] (new_Semaphore ?k)"
  let ?task = "\<lambda>i. snd (snd (downloadSingleImage config (worlds i) (batch ! i)
                              (startIndex + int i + 1) endIndex))"
  have fulfil: "\<forall>t. \<exists>r. ?task t = Inr r"
    using downloadSingleImage_settles by blast
  have live: "holders ?s = [] \<longrightarrow> queue ?s = []"
  proof (cases "batch = []")
    case True
    then show ?thesis by (simp add: new_Semaphore_def)
  next
    case False
    with assms have k: "1 \<le> ?k" by (simp add: Suc_leI)
    then have "sem_inv ?k (new_Semaphore ?k)" by (intro sem_inv_new) simp
    from this k show ?thesis
      by (rule fold_acquire_live) (simp add: new_Semaphore_def)
  qed
  from settle_all_fulfilled [OF fulfil live, of sched Map.empty]
  obtain vals' where res: "settle_all ?task sched ?s Map.empty = Some (Inr vals')"
    and vals': "\<And>i. vals' i = (if i \<in> set (holders ?s) \<union> set (queue ?s)
                                 then Some (projr (?task i)) else None)"
    by auto
  have "set (holders ?s) \<union> set (queue ?s) = {0..<length batch}"
    by (simp add: fold_acquire_members new_Semaphore_def)
  with vals' have "the (vals' i) = task_result config (worlds i) (batch ! i)
                                     (startIndex + int i + 1) endIndex"
    if "i < length batch" for i
    using that by (simp add: task_result_def)
  then have "map (\<lambda>i. the (vals' i)) [0..<length batch]
               = map (\<lambda>i. task_result config (worlds i) (batch ! i)
                             (startIndex + int i + 1) endIndex) [0..<length batch]"
    by simp
  with res show ?thesis
    by (simp add: processBatch_def Let_def)
qed








section \<open>All items\<close>

lemma js_slice_inside:
  assumes "0 \<le> a" and "a \<le> e" and "e \<le> int (length xs)"
  shows "js_slice xs a e = take (nat (e - a)) (drop (nat a) xs)"
  using assms by (simp add: js_slice_def Let_def min_def)

lemma take_batch:
  assumes "i < length xs" and "0 < b"
  shows "js_slice xs (int i) (min (int i + b) (int (length xs))) = take (nat b) (drop i xs)"
proof -
  have "js_slice xs (int i) (min (int i + b) (int (length xs)))
          = take (nat (min (int i + b) (int (length xs)) - int i)) (drop (nat (int i)) xs)"
    using assms by (intro js_slice_inside) simp_all
  also have "nat (min (int i + b) (int (length xs)) - int i) = min (nat b) (length xs - i)"
    using assms by (simp add: min_def) linarith
  also have "take (min (nat b) (length xs - i)) (drop (nat (int i)) xs) = take (nat b) (drop i xs)"
    by (simp add: min_def)
  finally show ?thesis .
qed

lemma batchLoop_run:
  assumes "0 < or_default (cfg_maxConcurrency config) 3"
    and "b = or_default (cfg_batchSize config) (or_default (cfg_maxConcurrency config) 3)"
    and "0 < b"
    and "d = or_default (cfg_delayBetweenBatches config) 1000"
  shows "batchLoop config worlds scheds xs (int i) acc ev
           = Some (Inr (acc @ concat (map (batch_results config worlds b (length xs))
                                        (batches_from (nat b) i xs)),
                        ev @ concat (map (batch_events b d (length xs))
                                       (batches_from (nat b) i xs))))"
proof (induction "length xs - i" arbitrary: i acc ev rule: less_induct)
  case less
  show ?case
  proof (cases "length xs \<le> i")
    case True
    then have "batches_from (nat b) i xs = []"
      by (subst batches_from.simps) simp
    with True show ?thesis
      by (subst batchLoop.simps) simp
  next
    case False
    then have lt: "i < length xs" by simp
    from assms(3) have pos: "nat b \<noteq> 0" by simp
    let ?batch = "take (nat b) (drop i xs)"
    let ?end = "min (int i + b) (int (length xs))"
    let ?R = "batch_results config worlds b (length xs) (i, ?batch)"
    let ?E = "batch_events b d (length xs) (i, ?batch)"
    have slice: "js_slice xs (int i) ?end = ?batch"
      by (rule take_batch [OF lt assms(3)])
    have pb: "processBatch config (worlds (int i)) (scheds (int i)) ?batch (int i) ?end
                = Some (Inr ?R)"
      using processBatch_results [OF assms(1)] by (simp add: batch_results_def)
    have next_i: "int i + b = int (i + nat b)"
      using assms(3) by simp
    have events: "[ProcessBatch ?batch (int i) ?end] @
                    (if ?end < int (length xs) \<and> 0 < d then [Wait d] else []) = ?E"
    proof (cases "i + nat b < length xs")
      case True
      with assms(3) have "?end < int (length xs)" by (simp add: min_def) linarith
      with True show ?thesis by (simp only: batch_events_def) simp
    next
      case False
      with assms(3) have "\<not> ?end < int (length xs)" by (simp add: min_def) linarith
      with False show ?thesis by (simp only: batch_events_def) simp
    qed
    have unfold: "batches_from (nat b) i xs = (i, ?batch) # batches_from (nat b) (i + nat b) xs"
      using pos False by (subst batches_from.simps) simp
    have step: "batchLoop config worlds scheds xs (int i) acc ev
                  = (case processBatch config (worlds (int i)) (scheds (int i))
                            (js_slice xs (int i) ?end) (int i) ?end of
                       None \<Rightarrow> None
                     | Some (Inl e) \<Rightarrow> Some (Inl e)
                     | Some (Inr batchResults) \<Rightarrow>
                         batchLoop config worlds scheds xs (int i + b) (acc @ batchResults)
                           (ev @ [ProcessBatch (js_slice xs (int i) ?end) (int i) ?end] @
                              (if ?end < int (length xs) \<and> 0 < d then [Wait d] else [])))"
    proof -
      from lt have cond: "int i < int (length xs)" by simp
      show ?thesis
        by (subst batchLoop.simps, unfold Let_def assms(2) [symmetric] assms(4) [symmetric])
          (simp only: cond if_True)
    qed
    have "batchLoop config worlds scheds xs (int i) acc ev
            = batchLoop config worlds scheds xs (int i + b) (acc @ ?R) (ev @ ?E)"
      unfolding step slice pb by (simp only: option.case sum.case events)
    also have "\<dots> = batchLoop config worlds scheds xs (int (i + nat b)) (acc @ ?R) (ev @ ?E)"
      by (simp only: next_i)
    also have "\<dots> = Some (Inr ((acc @ ?R)
                                @ concat (map (batch_results config worlds b (length xs))
                                            (batches_from (nat b) (i + nat b) xs)),
                             (ev @ ?E)
                                @ concat (map (batch_events b d (length xs))
                                            (batches_from (nat b) (i + nat b) xs))))"
      using lt pos by (intro less) simp
    also have "\<dots> = Some (Inr (acc @ concat (map (batch_results config worlds b (length xs))
                                             (batches_from (nat b) i xs)),
                             ev @ concat (map (batch_events b d (length xs))
                                            (batches_from (nat b) i xs))))"
      by (simp add: unfold)
    finally show ?thesis .
  qed
qed


lemma batches_concat:
  "0 < b \<Longrightarrow> concat (map snd (batches_from b i xs)) = drop i xs"
proof (induction "length xs - i" arbitrary: i rule: less_induct)
  case less
  show ?case
  proof (cases "length xs \<le> i")
    case True
    then show ?thesis by (subst batches_from.simps) simp
  next
    case False
    with less.prems have "concat (map snd (batches_from b (i + b) xs)) = drop (i + b) xs"
      by (intro less.hyps) simp_all
    moreover have "take b (drop i xs) @ drop b (drop i xs) = drop i xs"
      by (rule append_take_drop_id)
    then have "take b (drop i xs) @ drop (i + b) xs = drop i xs"
      by (simp add: add.commute)
    ultimately show ?thesis
      using False less.prems by (subst batches_from.simps) simp
  qed
qed

lemma batches_empty: "b = 0 \<or> length xs \<le> i \<Longrightarrow> batches_from b i xs = []"
  by (subst batches_from.simps) simp

lemma batches_unfold:
  "0 < b \<Longrightarrow> i < length xs
   \<Longrightarrow> batches_from b i xs = (i, take b (drop i xs)) # batches_from b (i + b) xs"
  by (subst batches_from.simps) simp

lemma ceil_step:
  assumes "0 < (b::nat)" and "0 < m"
  shows "(m + b - 1) div b = Suc ((m - b + b - 1) div b)"
proof -
  from assms(2) have shift: "m + b - 1 = (m - 1) + b" by simp
  from assms(1) have add: "((m - 1) + b) div b = (m - 1) div b + 1"
    using div_add_self2 [of b "m - 1"] by simp
  show ?thesis
  proof (cases "b \<le> m")
    case True
    then have "m - b + b - 1 = m - 1" by simp
    with shift add show ?thesis by simp
  next
    case False
    then have less: "m - 1 < b" by simp
    from False have "m - b + b - 1 = b - 1" by simp
    moreover from assms(1) have "(b - 1) div b = 0" by simp
    moreover from less have "(m - 1) div b = 0" by simp
    ultimately show ?thesis using shift add by simp
  qed
qed

lemma batches_length:
  "0 < b \<Longrightarrow> length (batches_from b i xs) = (length xs - i + b - 1) div b"
proof (induction "length xs - i" arbitrary: i rule: less_induct)
  case less
  show ?case
  proof (cases "length xs \<le> i")
    case True
    with less.prems show ?thesis by (simp add: batches_empty)
  next
    case False
    then have lt: "i < length xs" by simp
    with less.prems have ih: "length (batches_from b (i + b) xs) = (length xs - (i + b) + b - 1) div b"
      by (intro less.hyps) simp_all
    from lt have "0 < length xs - i" by simp
    with less.prems have "(length xs - i + b - 1) div b = Suc ((length xs - i - b + b - 1) div b)"
      by (rule ceil_step)
    moreover have "length xs - i - b = length xs - (i + b)" by simp
    ultimately show ?thesis
      using ih by (simp only: batches_unfold [OF less.prems lt] list.size length_Cons)
  qed
qed

lemma batches_nth:
  "0 < b \<Longrightarrow> k < length (batches_from b i xs)
   \<Longrightarrow> batches_from b i xs ! k = (i + k * b, take b (drop (i + k * b) xs))"
proof (induction k arbitrary: i)
  case 0
  then have "batches_from b i xs \<noteq> []" by auto
  with batches_empty [of b xs i] have "i < length xs" by fastforce
  with "0.prems"(1) show ?case by (simp add: batches_unfold)
next
  case (Suc k)
  then have "batches_from b i xs \<noteq> []" by auto
  with batches_empty [of b xs i] have "i < length xs" by fastforce
  with Suc.prems(1)
  have unfold: "batches_from b i xs = (i, take b (drop i xs)) # batches_from b (i + b) xs"
    by (rule batches_unfold)
  with Suc.prems have "k < length (batches_from b (i + b) xs)" by simp
  with Suc.prems(1) have "batches_from b (i + b) xs ! k
                            = (i + b + k * b, take b (drop (i + b + k * b) xs))"
    by (rule Suc.IH)
  with unfold show ?case by (simp add: add.assoc)
qed

lemma batch_results_photoId:
  "map photoId (batch_results config worlds b n (i, batch)) = map fst batch"
proof -
  have "map photoId (batch_results config worlds b n (i, batch))
          = map (\<lambda>j. fst (batch ! j)) [0..<length batch]"
    by (simp add: batch_results_def task_result_photoId)
  also have "\<dots> = map fst (map (\<lambda>j. batch ! j) [0..<length batch])"
    by simp
  also have "\<dots> = map fst batch"
    by (simp only: map_nth)
  finally show ?thesis .
qed

lemma all_results_photoId:
  "map photoId (concat (map (batch_results config worlds b n) bs)) = map fst (concat (map snd bs))"
proof (induction bs)
  case Nil
  show ?case by simp
next
  case (Cons x bs)
  obtain i batch where x: "x = (i, batch)" by (cases x)
  with Cons show ?case
    by (simp add: batch_results_photoId)
qed

lemma batches_waits:
  assumes "0 < b" and "0 < d"
  shows "length (filter is_wait (concat (map (batch_events (int b) d (length xs))
                                           (batches_from b i xs))))
           = length (batches_from b i xs) - 1"
proof (induction "length xs - i" arbitrary: i rule: less_induct)
  case less
  show ?case
  proof (cases "length xs \<le> i")
    case True
    then show ?thesis by (simp add: batches_empty)
  next
    case False
    then have lt: "i < length xs" by simp
    note unfold = batches_unfold [OF assms(1) lt]
    from lt assms(1)
    have ih: "length (filter is_wait (concat (map (batch_events (int b) d (length xs))
                                                (batches_from b (i + b) xs))))
                = length (batches_from b (i + b) xs) - 1"
      by (intro less) simp
    show ?thesis
    proof (cases "i + b < length xs")
      case True
      with assms(1) have "batches_from b (i + b) xs \<noteq> []"
        by (simp add: batches_unfold)
      then have "0 < length (batches_from b (i + b) xs)" by simp
      with True ih assms(2) show ?thesis
        by (simp add: unfold batch_events_def is_wait_def)
    next
      case False
      then have "batches_from b (i + b) xs = []"
        by (simp add: batches_empty)
      with False show ?thesis
        by (simp add: unfold batch_events_def is_wait_def)
    qed
  qed
qed

lemma photoIds_in_order:
  assumes "map photoId rs = map fst items"
  shows "length rs = length items \<and> (\<forall>i < length items. photoId (rs ! i) = fst (items ! i))"
proof -
  from assms have len: "length rs = length items"
    by (rule map_eq_imp_length_eq)
  have "photoId (rs ! i) = fst (items ! i)" if "i < length items" for i
  proof -
    from that len have "photoId (rs ! i) = map photoId rs ! i" by simp
    also have "\<dots> = map fst items ! i" by (simp only: assms)
    also from that have "\<dots> = fst (items ! i)" by simp
    finally show ?thesis .
  qed
  with len show ?thesis by blast
qed

text \<open>
  C1. With \<open>maxConcurrency \<ge> 1\<close>, and a batch size of at least 1 when batching is on,
  \<^verbatim>\<open>downloadImagesConcurrently(items)\<close> returns, in both modes and for every order in which
  the tasks of a batch settle and whatever they meet, a list of results of the length of
  \<open>items\<close> whose \<open>i\<close>-th element has the \<open>photoId\<close> of \<open>items[i]\<close>.
\<close>

theorem results_in_input_order:
  assumes "0 < or_default (cfg_maxConcurrency config) 3"
    and "cfg_enableBatching config \<noteq> Some False \<longrightarrow>
           0 < or_default (cfg_batchSize config) (or_default (cfg_maxConcurrency config) 3)"
  shows "\<exists>rs events. downloadImagesConcurrently config worlds scheds items = Some (Inr (rs, events)) \<and>
           length rs = length items \<and>
           (\<forall>i < length items. photoId (rs ! i) = fst (items ! i))"
proof (cases "cfg_enableBatching config = Some False")
  case True
  let ?rs = "map (\<lambda>i. task_result config (worlds 0 i) (items ! i) (0 + int i + 1)
                         (int (length items))) [0..<length items]"
  from True have "downloadImagesConcurrently config worlds scheds items
                    = Some (Inr (?rs, [ProcessBatch items 0 (int (length items))]))"
    by (simp add: downloadImagesConcurrently_def processBatch_results [OF assms(1)])
  moreover have "map photoId ?rs = map fst (map (\<lambda>i. items ! i) [0..<length items])"
    by (simp add: task_result_photoId)
  then have "map photoId ?rs = map fst items"
    by (simp only: map_nth)
  then have "length ?rs = length items \<and> (\<forall>i < length items. photoId (?rs ! i) = fst (items ! i))"
    by (rule photoIds_in_order)
  ultimately show ?thesis by blast
next
  case False
  define b where "b = or_default (cfg_batchSize config) (or_default (cfg_maxConcurrency config) 3)"
  define d where "d = or_default (cfg_delayBetweenBatches config) 1000"
  from False assms(2) have pos: "0 < b" by (simp add: b_def)
  let ?bs = "batches_from (nat b) 0 items"
  let ?rs = "concat (map (batch_results config worlds b (length items)) ?bs)"
  from False have on: "(case cfg_enableBatching config of None \<Rightarrow> True | Some x \<Rightarrow> x)"
    by (cases "cfg_enableBatching config") auto
  have "batchLoop config worlds scheds items (int 0) [] []
          = Some (Inr ([] @ ?rs, [] @ concat (map (batch_events b d (length items)) ?bs)))"
    using assms(1) b_def pos d_def by (rule batchLoop_run)
  with on have run: "downloadImagesConcurrently config worlds scheds items
                       = Some (Inr (?rs, concat (map (batch_events b d (length items)) ?bs)))"
    by (simp add: downloadImagesConcurrently_def)
  from pos have "concat (map snd ?bs) = items"
    by (simp add: batches_concat)
  then have "map photoId ?rs = map fst items"
    by (simp add: all_results_photoId)
  then have "length ?rs = length items \<and> (\<forall>i < length items. photoId (?rs ! i) = fst (items ! i))"
    by (rule photoIds_in_order)
  with run show ?thesis by blast
qed

theorem results_in_input_order_witness:
  "0 < or_default (cfg_maxConcurrency defaults) 3 \<and>
   0 < or_default (cfg_batchSize defaults) (or_default (cfg_maxConcurrency defaults) 3) \<and>
   (\<exists>rs events. downloadImagesConcurrently defaults sample_batch_worlds sample_scheds five_items
                    = Some (Inr (rs, events)) \<and>
                  length rs = 5 \<and> photoId (rs ! 4) = ''user/e'')"
proof -
  have m: "0 < or_default (cfg_maxConcurrency defaults) 3"
    and b: "0 < or_default (cfg_batchSize defaults) (or_default (cfg_maxConcurrency defaults) 3)"
    by (simp_all add: defaults_def or_default_def)
  from b have b': "cfg_enableBatching defaults \<noteq> Some False \<longrightarrow>
           0 < or_default (cfg_batchSize defaults) (or_default (cfg_maxConcurrency defaults) 3)"
    by simp
  have items: "length five_items = 5" "fst (five_items ! 4) = ''user/e''"
    by (simp_all add: five_items_def)
  from results_in_input_order [OF m b', of sample_batch_worlds sample_scheds five_items] m b items
  show ?thesis
    by auto
qed

text \<open>
  C10, as the claim states it, fails when the configured delay is 0, a value that the
  command line lets through: the loop waits \<^verbatim>\<open>this.config.get("delayBetweenBatches") || 1000\<close>
  ms. With \<^verbatim>\<open>delayBetweenBatches = 0\<close>, \<^verbatim>\<open>batchSize = 2\<close> and 5 items, the code waits 1000 ms
  after the first and after the second batch.
\<close>

theorem zero_delay_counterexample:
  "cfg_delayBetweenBatches (defaults\<lparr>cfg_batchSize := Some 2, cfg_delayBetweenBatches := Some 0\<rparr>)
     = Some 0 \<and>
   map_option (map_sum id snd)
     (downloadImagesConcurrently
        (defaults\<lparr>cfg_batchSize := Some 2, cfg_delayBetweenBatches := Some 0\<rparr>)
        sample_batch_worlds sample_scheds five_items)
     = Some (Inr [ProcessBatch [(''user/a'', no_imageData), (''user/b'', no_imageData)] 0 2,
                  Wait 1000,
                  ProcessBatch [(''user/c'', no_imageData), (''user/d'', no_imageData)] 2 4,
                  Wait 1000,
                  ProcessBatch [(''user/e'', no_imageData)] 4 5])"
proof -
  let ?config = "defaults\<lparr>cfg_batchSize := Some 2, cfg_delayBetweenBatches := Some 0\<rparr>"
  have on: "(case cfg_enableBatching ?config of None \<Rightarrow> True | Some x \<Rightarrow> x)"
    by (simp add: defaults_def)
  have b: "2 = or_default (cfg_batchSize ?config) (or_default (cfg_maxConcurrency ?config) 3)"
    and d: "1000 = or_default (cfg_delayBetweenBatches ?config) 1000"
    and m: "0 < or_default (cfg_maxConcurrency ?config) 3"
    by (simp_all add: defaults_def or_default_def)
  have bs: "batches_from 2 0 five_items
              = [(0, [(''user/a'', no_imageData), (''user/b'', no_imageData)]),
                 (2, [(''user/c'', no_imageData), (''user/d'', no_imageData)]),
                 (4, [(''user/e'', no_imageData)])]"
    by (simp add: batches_from.simps five_items_def)
  have n: "nat 2 = 2" "length five_items = 5"
    by (simp_all add: five_items_def)
  have "batchLoop ?config sample_batch_worlds sample_scheds five_items (int 0) [] []
          = Some (Inr ([] @ concat (map (batch_results ?config sample_batch_worlds 2 (length five_items))
                                      (batches_from (nat 2) 0 five_items)),
                       [] @ concat (map (batch_events 2 1000 (length five_items))
                                      (batches_from (nat 2) 0 five_items))))"
    using m b _ d by (rule batchLoop_run) simp
  with on have "map_option (map_sum id snd)
                  (downloadImagesConcurrently ?config sample_batch_worlds sample_scheds five_items)
                = Some (Inr (concat (map (batch_events 2 1000 (length five_items))
                                       (batches_from (nat 2) 0 five_items))))"
    by (simp add: downloadImagesConcurrently_def)
  then show ?thesis
    by (simp add: n bs batch_events_def)
qed

text \<open>
  C10, amended. With batching on, \<open>batchSize \<ge> 1\<close> and \<open>maxConcurrency \<ge> 1\<close> (the values
  after the defaults of \<^verbatim>\<open>||\<close>), \<^verbatim>\<open>downloadImagesConcurrently\<close> cuts the input into
  consecutive slices of length \<open>batchSize\<close>, the last possibly shorter,
  \<open>ceil(n / batchSize)\<close> of them; it calls \<^verbatim>\<open>processBatch\<close> on the slices in order and appends
  the results of each batch, which are in the order of its items; and it waits \<open>d\<close> ms
  after every batch except the last, so there is one wait less than there are batches,
  where \<open>d\<close> is \<^verbatim>\<open>this.config.get("delayBetweenBatches") || 1000\<close>: the configured delay when
  it is positive, and 1000 when the configured delay is 0 or not set.
\<close>

theorem batches_in_order_with_delays:
  assumes "cfg_enableBatching config \<noteq> Some False"
    and "b = or_default (cfg_batchSize config) (or_default (cfg_maxConcurrency config) 3)"
    and "0 < b"
    and "d = or_default (cfg_delayBetweenBatches config) 1000"
    and "0 < d"
    and "0 < or_default (cfg_maxConcurrency config) 3"
    and "batches = batches_from (nat b) 0 items"
    and "events =
           concat (map (\<lambda>x. ProcessBatch (snd x) (int (fst x))
                                 (min (int (fst x) + b) (int (length items))) #
                               (if fst x + nat b < length items then [Wait d] else []))
                     batches)"
  shows "downloadImagesConcurrently config worlds scheds items
           = Some (Inr (concat (map (batch_results config worlds b (length items)) batches), events)) \<and>
         concat (map snd batches) = items \<and>
         length batches = (length items + nat b - 1) div nat b \<and>
         (\<forall>k < length batches. batches ! k = (k * nat b, take (nat b) (drop (k * nat b) items))) \<and>
         length (filter is_wait events) = length batches - 1"
proof -
  from assms(3) have pos: "0 < nat b" and int_b: "int (nat b) = b"
    by simp_all
  have same: "batch_events b d (length items) = (\<lambda>x. ProcessBatch (snd x) (int (fst x))
                                 (min (int (fst x) + b) (int (length items))) #
                               (if fst x + nat b < length items then [Wait d] else []))"
    using assms(5) by (auto simp: batch_events_def fun_eq_iff)
  then have events: "events = concat (map (batch_events b d (length items)) batches)"
    by (simp only: assms(8))
  from assms(1) have on: "(case cfg_enableBatching config of None \<Rightarrow> True | Some x \<Rightarrow> x)"
    by (cases "cfg_enableBatching config") auto
  have "batchLoop config worlds scheds items (int 0) [] []
          = Some (Inr ([] @ concat (map (batch_results config worlds b (length items))
                                      (batches_from (nat b) 0 items)),
                       [] @ concat (map (batch_events b d (length items))
                                      (batches_from (nat b) 0 items))))"
    using assms(6,2,3,4) by (rule batchLoop_run)
  with on have run: "downloadImagesConcurrently config worlds scheds items
           = Some (Inr (concat (map (batch_results config worlds b (length items)) batches), events))"
    by (simp add: downloadImagesConcurrently_def events assms(7))
  from pos have cover: "concat (map snd batches) = items"
    by (simp add: batches_concat assms(7))
  from pos have count: "length batches = (length items + nat b - 1) div nat b"
    by (simp add: batches_length assms(7))
  from pos have slices: "\<forall>k < length batches.
                           batches ! k = (k * nat b, take (nat b) (drop (k * nat b) items))"
    by (simp add: batches_nth assms(7))
  from batches_waits [OF pos assms(5), of items 0]
  have waits: "length (filter is_wait events) = length batches - 1"
    by (simp only: int_b events assms(7))
  from run cover count slices waits show ?thesis
    by (intro conjI)
qed

theorem batches_in_order_with_delays_witness:
  "cfg_enableBatching (defaults\<lparr>cfg_batchSize := Some 2, cfg_delayBetweenBatches := Some 500\<rparr>)
     \<noteq> Some False \<and>
   or_default (cfg_batchSize (defaults\<lparr>cfg_batchSize := Some 2, cfg_delayBetweenBatches := Some 500\<rparr>))
     (or_default (cfg_maxConcurrency
        (defaults\<lparr>cfg_batchSize := Some 2, cfg_delayBetweenBatches := Some 500\<rparr>)) 3) = 2 \<and>
   or_default (cfg_delayBetweenBatches
     (defaults\<lparr>cfg_batchSize := Some 2, cfg_delayBetweenBatches := Some 500\<rparr>)) 1000 = 500 \<and>
   map (\<lambda>x. length (snd x)) (batches_from 2 0 five_items) = [2, 2, 1] \<and>
   (\<exists>rs. downloadImagesConcurrently
            (defaults\<lparr>cfg_batchSize := Some 2, cfg_delayBetweenBatches := Some 500\<rparr>)
            sample_batch_worlds sample_scheds five_items
          = Some (Inr (rs,
              [ProcessBatch [(''user/a'', no_imageData), (''user/b'', no_imageData)] 0 2, Wait 500,
               ProcessBatch [(''user/c'', no_imageData), (''user/d'', no_imageData)] 2 4, Wait 500,
               ProcessBatch [(''user/e'', no_imageData)] 4 5])))"
proof -
  let ?config = "defaults\<lparr>cfg_batchSize := Some 2, cfg_delayBetweenBatches := Some 500\<rparr>"
  have on: "cfg_enableBatching ?config \<noteq> Some False"
    by (simp add: defaults_def)
  have b: "2 = or_default (cfg_batchSize ?config) (or_default (cfg_maxConcurrency ?config) 3)"
    and d: "500 = or_default (cfg_delayBetweenBatches ?config) 1000"
    and m: "0 < or_default (cfg_maxConcurrency ?config) 3"
    by (simp_all add: defaults_def or_default_def)
  have bs: "batches_from 2 0 five_items
              = [(0, [(''user/a'', no_imageData), (''user/b'', no_imageData)]),
                 (2, [(''user/c'', no_imageData), (''user/d'', no_imageData)]),
                 (4, [(''user/e'', no_imageData)])]"
    by (simp add: batches_from.simps five_items_def)
  have n: "nat 2 = 2" "length five_items = 5"
    by (simp_all add: five_items_def)
  from batches_in_order_with_delays [OF on b _ d _ m refl refl,
      of sample_batch_worlds sample_scheds five_items]
  have "downloadImagesConcurrently ?config sample_batch_worlds sample_scheds five_items
          = Some (Inr (concat (map (batch_results ?config sample_batch_worlds 2 (length five_items))
                                  (batches_from (nat 2) 0 five_items)),
              concat (map (\<lambda>x. ProcessBatch (snd x) (int (fst x))
                                 (min (int (fst x) + 2) (int (length five_items))) #
                               (if fst x + nat 2 < length five_items then [Wait 500] else []))
                     (batches_from (nat 2) 0 five_items))))"
    by simp
  then have "\<exists>rs. downloadImagesConcurrently ?config sample_batch_worlds sample_scheds five_items
          = Some (Inr (rs,
              [ProcessBatch [(''user/a'', no_imageData), (''user/b'', no_imageData)] 0 2, Wait 500,
               ProcessBatch [(''user/c'', no_imageData), (''user/d'', no_imageData)] 2 4, Wait 500,
               ProcessBatch [(''user/e'', no_imageData)] 4 5]))"
    by (simp add: n bs)
  with on b [symmetric] d [symmetric] bs show ?thesis
    by simp
qed

end
